theory Spec2Isabelle
  imports Main "HOL-Library.Product_Lexorder"
begin

section \<open>Text: Python strings\<close>

text \<open>
  A Python \<^verbatim>\<open>str\<close> is a sequence of Unicode code points, so a string is a list of
  code points and \<open>length\<close> counts what Python's \<^verbatim>\<open>len\<close> counts. The character
  classes of the \<^verbatim>\<open>re\<close> module on \<^verbatim>\<open>str\<close> patterns are the Unicode ones:
  \<^verbatim>\<open>\d\<close> is \<^verbatim>\<open>Py_UNICODE_ISDECIMAL\<close>, \<^verbatim>\<open>\s\<close> is \<^verbatim>\<open>Py_UNICODE_ISSPACE\<close> and
  \<^verbatim>\<open>\w\<close> is \<^verbatim>\<open>Py_UNICODE_ISALNUM\<close> or the underscore. On ASCII they are written out
  below; beyond ASCII they depend on the Unicode database, which is not part of the
  repository: it is the parameter \<open>U\<close> of everything that classifies characters.
\<close>

type_synonym pychar = nat
type_synonym pystr = "pychar list"

definition str :: "string \<Rightarrow> pystr" where
  "str s = map of_char s"

record unicode =
  uni_decimal :: "pychar \<Rightarrow> bool"
  uni_alnum :: "pychar \<Rightarrow> bool"
  uni_space :: "pychar \<Rightarrow> bool"
  uni_lower :: "pystr \<Rightarrow> pystr"

text \<open>A database that knows ASCII only; it serves to evaluate on ASCII inputs, where
  the database is never consulted.\<close>

definition ascii_db :: unicode where
  "ascii_db = \<lparr>uni_decimal = (\<lambda>c. False), uni_alnum = (\<lambda>c. False),
     uni_space = (\<lambda>c. False), uni_lower = (\<lambda>s. s)\<rparr>"

definition is_ascii_letter :: "pychar \<Rightarrow> bool" where
  \<comment> \<open>the class \<^verbatim>\<open>[A-Za-z]\<close>\<close>
  "is_ascii_letter c = ((65 \<le> c \<and> c \<le> 90) \<or> (97 \<le> c \<and> c \<le> 122))"

definition is_digit :: "unicode \<Rightarrow> pychar \<Rightarrow> bool" where
  \<comment> \<open>the class \<^verbatim>\<open>\d\<close>\<close>
  "is_digit U c = (if c < 128 then 48 \<le> c \<and> c \<le> 57 else uni_decimal U c)"

definition is_space :: "unicode \<Rightarrow> pychar \<Rightarrow> bool" where
  \<comment> \<open>the class \<^verbatim>\<open>\s\<close>, and what \<^verbatim>\<open>str.strip()\<close> removes\<close>
  "is_space U c =
     (if c < 128 then (9 \<le> c \<and> c \<le> 13) \<or> (28 \<le> c \<and> c \<le> 32) else uni_space U c)"

definition is_word :: "unicode \<Rightarrow> pychar \<Rightarrow> bool" where
  \<comment> \<open>the class \<^verbatim>\<open>\w\<close>: alphanumeric (decimal digits included) or underscore\<close>
  "is_word U c =
     (if c < 128 then is_ascii_letter c \<or> (48 \<le> c \<and> c \<le> 57) \<or> c = 95
      else uni_decimal U c \<or> uni_alnum U c)"

definition strip :: "unicode \<Rightarrow> pystr \<Rightarrow> pystr" where
  \<comment> \<open>\<^verbatim>\<open>s.strip()\<close>\<close>
  "strip U s = rev (dropWhile (is_space U) (rev (dropWhile (is_space U) s)))"

definition ascii_lower :: "pychar \<Rightarrow> pychar" where
  "ascii_lower c = (if 65 \<le> c \<and> c \<le> 90 then c + 32 else c)"

definition lower :: "unicode \<Rightarrow> pystr \<Rightarrow> pystr" where
  \<comment> \<open>\<^verbatim>\<open>s.lower()\<close>: on an ASCII string, character by character\<close>
  "lower U s = (if list_all (\<lambda>c. c < 128) s then map ascii_lower s else uni_lower U s)"

fun join :: "pystr \<Rightarrow> pystr list \<Rightarrow> pystr" where
  \<comment> \<open>\<^verbatim>\<open>sep.join(xs)\<close>\<close>
  "join sep [] = []"
| "join sep [x] = x"
| "join sep (x # y # ys) = x @ sep @ join sep (y # ys)"

function replace :: "pystr \<Rightarrow> pystr \<Rightarrow> pystr \<Rightarrow> pystr" where
  \<comment> \<open>\<^verbatim>\<open>s.replace(old, new)\<close>: every occurrence, left to right, without overlap\<close>
  "replace old new s =
     (if old = [] then new @ concat (map (\<lambda>c. c # new) s)
      else if s = [] then []
      else if take (length old) s = old then new @ replace old new (drop (length old) s)
      else hd s # replace old new (tl s))"
  by pat_completeness auto
termination
  by (relation "measure (\<lambda>(old, new, s). length s)") auto

declare replace.simps [simp del]

section \<open>Tokenizers\<close>

text \<open>
  \<^verbatim>\<open>re.findall(p, text)\<close> scans \<open>text\<close> from the left: at each position it tries the
  pattern; a match is emitted and the scan goes on behind it, otherwise the scan moves one
  character on. A pattern is modelled by its matcher, which returns the matched prefix.
  None of the patterns of this program matches the empty string.
\<close>

function findall :: "(pystr \<Rightarrow> pystr option) \<Rightarrow> pystr \<Rightarrow> pystr list" where
  "findall m s =
     (if s = [] then []
      else (case m s of
              None \<Rightarrow> findall m (tl s)
            | Some t \<Rightarrow> if t = [] then [] # findall m (tl s)
                        else t # findall m (drop (length t) s)))"
  by pat_completeness auto
termination
  by (relation "measure (\<lambda>(m, s). length s)") auto

declare findall.simps [simp del]

definition alt_word :: "pystr \<Rightarrow> pystr option" where
  \<comment> \<open>\<^verbatim>\<open>[A-Za-z]+(?:'[A-Za-z]+)?\<close>\<close>
  "alt_word s =
     (let w = takeWhile is_ascii_letter s; r = dropWhile is_ascii_letter s
      in if w = [] then None
         else (case r of
                 [] \<Rightarrow> Some w
               | q # r' \<Rightarrow>
                   (let w2 = takeWhile is_ascii_letter r'
                    in if q = 39 \<and> w2 \<noteq> [] then Some (w @ q # w2) else Some w)))"

definition alt_digits :: "unicode \<Rightarrow> pystr \<Rightarrow> pystr option" where
  \<comment> \<open>\<^verbatim>\<open>\d+\<close>\<close>
  "alt_digits U s = (let d = takeWhile (is_digit U) s in if d = [] then None else Some d)"

definition alt_symbol :: "unicode \<Rightarrow> pystr \<Rightarrow> pystr option" where
  \<comment> \<open>\<^verbatim>\<open>[^\w\s]\<close>\<close>
  "alt_symbol U s =
     (case s of [] \<Rightarrow> None
      | c # cs \<Rightarrow> if \<not> is_word U c \<and> \<not> is_space U c then Some [c] else None)"

definition alt_w :: "unicode \<Rightarrow> pystr \<Rightarrow> pystr option" where
  \<comment> \<open>\<^verbatim>\<open>\w+\<close>\<close>
  "alt_w U s = (let w = takeWhile (is_word U) s in if w = [] then None else Some w)"

definition orelse :: "'a option \<Rightarrow> 'a option \<Rightarrow> 'a option" where
  \<comment> \<open>the alternation \<^verbatim>\<open>|\<close>: the first alternative that matches\<close>
  "orelse x y = (case x of None \<Rightarrow> y | Some v \<Rightarrow> Some v)"

definition wp_tokenize :: "unicode \<Rightarrow> pystr \<Rightarrow> pystr list" where
  \<comment> \<open>fastapi\_server.py, \<^verbatim>\<open>_wp_tokenize\<close>\<close>
  "wp_tokenize U text =
     findall (\<lambda>s. orelse (alt_word s) (orelse (alt_digits U s) (alt_symbol U s))) text"

definition wp_tokenize_tagger :: "unicode \<Rightarrow> pystr \<Rightarrow> pystr list" where
  \<comment> \<open>train\_fce\_error\_tagger.py, \<^verbatim>\<open>_wp_tokenize\<close>\<close>
  "wp_tokenize_tagger U s = findall (\<lambda>s. orelse (alt_w U s) (alt_symbol U s)) s"

definition wp_tokenize_corrector :: "unicode \<Rightarrow> pystr \<Rightarrow> pystr list" where
  \<comment> \<open>train\_fce\_grammar\_corrector.py, \<^verbatim>\<open>_wp_tokenize\<close>\<close>
  "wp_tokenize_corrector U s = findall (\<lambda>s. orelse (alt_w U s) (alt_symbol U s)) s"

definition wp_tokenize_test :: "unicode \<Rightarrow> pystr \<Rightarrow> pystr list" where
  \<comment> \<open>test\_fce\_grammar\_corrector.py, \<^verbatim>\<open>FCEErrorCorrector._wp_tokenize\<close>\<close>
  "wp_tokenize_test U s = findall (\<lambda>s. orelse (alt_w U s) (alt_symbol U s)) s"

section \<open>The aligner: \<^verbatim>\<open>difflib.SequenceMatcher(None, a, b)\<close>\<close>

text \<open>
  The aligner is the standard library's \<^verbatim>\<open>SequenceMatcher\<close>, constructed with
  \<^verbatim>\<open>isjunk = None\<close> and the default \<^verbatim>\<open>autojunk = True\<close>. The model follows
  \<^verbatim>\<open>difflib.py\<close> of CPython 3.11 method by method. With \<^verbatim>\<open>isjunk = None\<close> the set
  \<^verbatim>\<open>bjunk\<close> is empty, so the test \<^verbatim>\<open>not isbjunk(..)\<close> of the first two extension loops
  of \<^verbatim>\<open>find_longest_match\<close> is true and the last two loops never run.
\<close>

definition b2j_all :: "'a list \<Rightarrow> 'a \<Rightarrow> nat list" where
  \<comment> \<open>\<^verbatim>\<open>__chain_b\<close>: the indices at which \<open>x\<close> occurs in \<open>b\<close>, ascending\<close>
  "b2j_all b x = filter (\<lambda>j. b ! j = x) [0..<length b]"

definition bpopular :: "'a list \<Rightarrow> 'a \<Rightarrow> bool" where
  \<comment> \<open>\<^verbatim>\<open>__chain_b\<close>: with \<open>n \<ge> 200\<close>, an element at more than \<open>n // 100 + 1\<close> places\<close>
  "bpopular b x = (200 \<le> length b \<and> length b div 100 + 1 < length (b2j_all b x))"

definition b2j :: "'a list \<Rightarrow> 'a \<Rightarrow> nat list" where
  \<comment> \<open>\<^verbatim>\<open>b2j.get(x, nothing)\<close> after the popular elements are purged\<close>
  "b2j b x = (if bpopular b x then [] else b2j_all b x)"

type_synonym match = "nat \<times> nat \<times> nat"

definition j2lenget :: "(nat \<rightharpoonup> nat) \<Rightarrow> nat \<Rightarrow> nat" where
  \<comment> \<open>\<^verbatim>\<open>j2len.get(j-1, 0)\<close>; for \<open>j = 0\<close> the key is \<open>-1\<close>, which is never stored\<close>
  "j2lenget j2len j = (if j = 0 then 0 else (case j2len (j - 1) of None \<Rightarrow> 0 | Some v \<Rightarrow> v))"

fun flm_inner ::
  "nat \<Rightarrow> nat \<Rightarrow> nat \<Rightarrow> (nat \<rightharpoonup> nat) \<Rightarrow> nat list \<Rightarrow> (nat \<rightharpoonup> nat) \<times> match
     \<Rightarrow> (nat \<rightharpoonup> nat) \<times> match" where
  \<comment> \<open>the loop \<^verbatim>\<open>for j in b2j.get(a[i], nothing)\<close> of \<^verbatim>\<open>find_longest_match\<close>\<close>
  "flm_inner i blo bhi j2len [] st = st"
| "flm_inner i blo bhi j2len (j # js) (newj2len, (besti, bestj, bestsize)) =
     (if j < blo then flm_inner i blo bhi j2len js (newj2len, (besti, bestj, bestsize))
      else if bhi \<le> j then (newj2len, (besti, bestj, bestsize))
      else (let k = j2lenget j2len j + 1
            in if bestsize < k
               then flm_inner i blo bhi j2len js (newj2len(j \<mapsto> k), (i + 1 - k, j + 1 - k, k))
               else flm_inner i blo bhi j2len js (newj2len(j \<mapsto> k), (besti, bestj, bestsize))))"

fun flm_outer ::
  "'a list \<Rightarrow> 'a list \<Rightarrow> nat \<Rightarrow> nat \<Rightarrow> nat list \<Rightarrow> (nat \<rightharpoonup> nat) \<times> match
     \<Rightarrow> (nat \<rightharpoonup> nat) \<times> match" where
  \<comment> \<open>the loop \<^verbatim>\<open>for i in range(alo, ahi)\<close> of \<^verbatim>\<open>find_longest_match\<close>\<close>
  "flm_outer a b blo bhi [] st = st"
| "flm_outer a b blo bhi (i # is) (j2len, best) =
     flm_outer a b blo bhi is (flm_inner i blo bhi j2len (b2j b (a ! i)) (Map.empty, best))"

function extend_left :: "'a list \<Rightarrow> 'a list \<Rightarrow> nat \<Rightarrow> nat \<Rightarrow> match \<Rightarrow> match" where
  "extend_left a b alo blo (besti, bestj, bestsize) =
     (if alo < besti \<and> blo < bestj \<and> a ! (besti - 1) = b ! (bestj - 1)
      then extend_left a b alo blo (besti - 1, bestj - 1, bestsize + 1)
      else (besti, bestj, bestsize))"
  by pat_completeness auto
termination
  by (relation "measure (\<lambda>(a, b, alo, blo, besti, bestj, bestsize). besti)") auto

function extend_right :: "'a list \<Rightarrow> 'a list \<Rightarrow> nat \<Rightarrow> nat \<Rightarrow> match \<Rightarrow> match" where
  "extend_right a b ahi bhi (besti, bestj, bestsize) =
     (if besti + bestsize < ahi \<and> bestj + bestsize < bhi
         \<and> a ! (besti + bestsize) = b ! (bestj + bestsize)
      then extend_right a b ahi bhi (besti, bestj, bestsize + 1)
      else (besti, bestj, bestsize))"
  by pat_completeness auto
termination
  by (relation "measure (\<lambda>(a, b, ahi, bhi, besti, bestj, bestsize). ahi - (besti + bestsize))")
    auto

declare extend_left.simps [simp del] extend_right.simps [simp del]

definition find_longest_match ::
  "'a list \<Rightarrow> 'a list \<Rightarrow> nat \<Rightarrow> nat \<Rightarrow> nat \<Rightarrow> nat \<Rightarrow> match" where
  "find_longest_match a b alo ahi blo bhi =
     extend_right a b ahi bhi
       (extend_left a b alo blo
          (snd (flm_outer a b blo bhi [alo..<ahi] (Map.empty, (alo, blo, 0)))))"

text \<open>
  The match that \<^verbatim>\<open>find_longest_match\<close> returns lies inside the window it was asked
  about: it is \<open>(alo, blo, 0)\<close> when nothing matches, and otherwise a non-empty block
  between \<open>alo\<close> and \<open>ahi\<close>, \<open>blo\<close> and \<open>bhi\<close>. The loop of
  \<^verbatim>\<open>get_matching_blocks\<close> terminates because of it.
\<close>

definition row_ok :: "nat \<Rightarrow> nat \<Rightarrow> nat \<Rightarrow> (nat \<rightharpoonup> nat) \<Rightarrow> bool" where
  "row_ok blo bhi n m =
     (\<forall>j v. m j = Some v \<longrightarrow> blo \<le> j \<and> j < bhi \<and> 0 < v \<and> v \<le> j + 1 - blo \<and> v \<le> n)"

definition best_ok :: "nat \<Rightarrow> nat \<Rightarrow> nat \<Rightarrow> nat \<Rightarrow> match \<Rightarrow> bool" where
  "best_ok alo ahi blo bhi best =
     (case best of (i, j, k) \<Rightarrow>
        (k = 0 \<and> i = alo \<and> j = blo) \<or>
        (0 < k \<and> alo \<le> i \<and> i + k \<le> ahi \<and> blo \<le> j \<and> j + k \<le> bhi))"

lemma j2lenget_bound:
  assumes "row_ok blo bhi n m" "blo \<le> j"
  shows "j2lenget m j + 1 \<le> j + 1 - blo \<and> j2lenget m j \<le> n"
proof (cases "j = 0")
  case True
  then show ?thesis using assms by (simp add: j2lenget_def)
next
  case False
  show ?thesis
  proof (cases "m (j - 1)")
    case None
    then show ?thesis using False assms by (simp add: j2lenget_def)
  next
    case (Some v)
    then have "blo \<le> j - 1 \<and> v \<le> (j - 1) + 1 - blo \<and> v \<le> n"
      using assms(1) by (simp add: row_ok_def)
    then show ?thesis using False Some by (simp add: j2lenget_def) arith
  qed
qed

lemma flm_inner_ok:
  assumes prev: "row_ok blo bhi n j2len" and i: "i = alo + n" "i < ahi"
  shows "row_ok blo bhi (Suc n) new \<Longrightarrow> best_ok alo ahi blo bhi best \<Longrightarrow>
         row_ok blo bhi (Suc n) (fst (flm_inner i blo bhi j2len js (new, best))) \<and>
         best_ok alo ahi blo bhi (snd (flm_inner i blo bhi j2len js (new, best)))"
proof (induction js arbitrary: new best)
  case Nil
  then show ?case by simp
next
  case (Cons j js)
  obtain bi bj bs where best: "best = (bi, bj, bs)" by (cases best) auto
  show ?case
  proof (cases "j < blo \<or> bhi \<le> j")
    case True
    then show ?thesis using Cons best by auto
  next
    case False
    then have j: "blo \<le> j" "j < bhi" by auto
    let ?k = "j2lenget j2len j + 1"
    have k: "?k \<le> j + 1 - blo" "?k \<le> Suc n"
      using j2lenget_bound [OF prev j(1)] by auto
    have new': "row_ok blo bhi (Suc n) (new(j \<mapsto> ?k))"
      using Cons.prems(1) j k by (auto simp: row_ok_def)
    have best': "best_ok alo ahi blo bhi (i + 1 - ?k, j + 1 - ?k, ?k)"
      using j k i by (auto simp: best_ok_def)
    have step: "flm_inner i blo bhi j2len (j # js) (new, best) =
        flm_inner i blo bhi j2len js
          (new(j \<mapsto> ?k), if bs < ?k then (i + 1 - ?k, j + 1 - ?k, ?k) else best)"
      using False best by (simp add: Let_def)
    show ?thesis
    proof (cases "bs < ?k")
      case True
      then show ?thesis using Cons.IH [OF new' best'] by (simp only: step if_True)
    next
      case False
      then show ?thesis using Cons.IH [OF new' Cons.prems(2)] by (simp only: step if_False)
    qed
  qed
qed

lemma flm_outer_ok:
  "alo \<le> i0 \<Longrightarrow> row_ok blo bhi (i0 - alo) j2len \<Longrightarrow> best_ok alo ahi blo bhi best \<Longrightarrow>
   best_ok alo ahi blo bhi (snd (flm_outer a b blo bhi [i0..<ahi] (j2len, best)))"
proof (induction "ahi - i0" arbitrary: i0 j2len best)
  case 0
  then show ?case by simp
next
  case (Suc d)
  then have lt: "i0 < ahi" by simp
  let ?st = "flm_inner i0 blo bhi j2len (b2j b (a ! i0)) (Map.empty, best)"
  have e: "row_ok blo bhi (Suc (i0 - alo)) Map.empty" by (simp add: row_ok_def)
  have i0: "i0 = alo + (i0 - alo)" using Suc.prems(1) by simp
  have st: "row_ok blo bhi (Suc (i0 - alo)) (fst ?st) \<and> best_ok alo ahi blo bhi (snd ?st)"
    using flm_inner_ok [OF Suc.prems(2) i0 lt e Suc.prems(3)] by simp
  have "best_ok alo ahi blo bhi
          (snd (flm_outer a b blo bhi [Suc i0..<ahi] (fst ?st, snd ?st)))"
  proof (rule Suc.hyps(1))
    show "d = ahi - Suc i0" using Suc.hyps(2) by simp
    show "alo \<le> Suc i0" using Suc.prems(1) by simp
    show "row_ok blo bhi (Suc i0 - alo) (fst ?st)"
      using st Suc.prems(1) by (simp add: Suc_diff_le)
    show "best_ok alo ahi blo bhi (snd ?st)" using st by simp
  qed
  then show ?case using lt by (simp add: upt_conv_Cons)
qed

lemma extend_left_ok:
  "best_ok alo ahi blo bhi best \<Longrightarrow> best_ok alo ahi blo bhi (extend_left a b alo blo best)"
proof (induction a b alo blo best rule: extend_left.induct)
  case (1 a b alo blo besti bestj bestsize)
  show ?case
  proof (cases "alo < besti \<and> blo < bestj \<and> a ! (besti - 1) = b ! (bestj - 1)")
    case True
    have "best_ok alo ahi blo bhi (besti - 1, bestj - 1, bestsize + 1)"
      using True "1.prems" by (auto simp: best_ok_def)
    moreover have "extend_left a b alo blo (besti, bestj, bestsize) =
        extend_left a b alo blo (besti - 1, bestj - 1, bestsize + 1)"
      using True by (subst extend_left.simps) simp
    ultimately show ?thesis using True "1.IH" by simp
  next
    case False
    then have "extend_left a b alo blo (besti, bestj, bestsize) = (besti, bestj, bestsize)"
      by (subst extend_left.simps) auto
    then show ?thesis using "1.prems" by simp
  qed
qed

lemma extend_right_ok:
  "best_ok alo ahi blo bhi best \<Longrightarrow> best_ok alo ahi blo bhi (extend_right a b ahi bhi best)"
proof (induction a b ahi bhi best rule: extend_right.induct)
  case (1 a b ahi bhi besti bestj bestsize)
  show ?case
  proof (cases "besti + bestsize < ahi \<and> bestj + bestsize < bhi
         \<and> a ! (besti + bestsize) = b ! (bestj + bestsize)")
    case True
    have "best_ok alo ahi blo bhi (besti, bestj, bestsize + 1)"
      using True "1.prems" by (auto simp: best_ok_def)
    moreover have "extend_right a b ahi bhi (besti, bestj, bestsize) =
        extend_right a b ahi bhi (besti, bestj, bestsize + 1)"
      using True by (subst extend_right.simps) simp
    ultimately show ?thesis using True "1.IH" by simp
  next
    case False
    then have "extend_right a b ahi bhi (besti, bestj, bestsize) = (besti, bestj, bestsize)"
      by (subst extend_right.simps) auto
    then show ?thesis using "1.prems" by simp
  qed
qed

lemma find_longest_match_ok:
  "best_ok alo ahi blo bhi (find_longest_match a b alo ahi blo bhi)"
  unfolding find_longest_match_def
  by (intro extend_right_ok extend_left_ok flm_outer_ok) (simp_all add: row_ok_def best_ok_def)

type_synonym window = "nat \<times> nat \<times> nat \<times> nat"

definition window_size :: "window \<Rightarrow> nat" where
  "window_size w = (case w of (alo, ahi, blo, bhi) \<Rightarrow> (ahi - alo) + (bhi - blo) + 1)"

lemma sum_list_butlast_last:
  "queue \<noteq> [] \<Longrightarrow>
   sum_list (map f queue) = sum_list (map f (butlast queue)) + (f (last queue) :: nat)"
  by (induction queue) auto

function mb_loop :: "'a list \<Rightarrow> 'a list \<Rightarrow> window list \<Rightarrow> match list \<Rightarrow> match list" where
  \<comment> \<open>the loop \<^verbatim>\<open>while queue\<close> of \<^verbatim>\<open>get_matching_blocks\<close>; \<^verbatim>\<open>queue.pop()\<close> takes the last\<close>
  "mb_loop a b queue matching_blocks =
     (if queue = [] then matching_blocks
      else (case last queue of (alo, ahi, blo, bhi) \<Rightarrow>
        (case find_longest_match a b alo ahi blo bhi of (i, j, k) \<Rightarrow>
           if k \<noteq> 0
           then mb_loop a b
                  (butlast queue
                     @ (if alo < i \<and> blo < j then [(alo, i, blo, j)] else [])
                     @ (if i + k < ahi \<and> j + k < bhi then [(i + k, ahi, j + k, bhi)] else []))
                  (matching_blocks @ [(i, j, k)])
           else mb_loop a b (butlast queue) matching_blocks)))"
  by pat_completeness auto
termination
proof (relation "measure (\<lambda>(a, b, queue, mbs). sum_list (map window_size queue))", goal_cases)
  case 1
  show ?case by simp
next
  case (2 a b queue mbs alo y ahi ya blo bhi i yc j k)
  have m: "find_longest_match a b alo ahi blo bhi = (i, j, k)"
    using 2(5,6) by simp
  have "0 < k" using 2(7) by simp
  then have b: "alo \<le> i \<and> i + k \<le> ahi \<and> blo \<le> j \<and> j + k \<le> bhi \<and> 0 < k"
    using find_longest_match_ok [of alo ahi blo bhi a b] unfolding m best_ok_def by simp
  have l: "last queue = (alo, ahi, blo, bhi)" using 2 by simp
  show ?case
    using b sum_list_butlast_last [OF 2(1), of window_size] by (auto simp: l window_size_def)
next
  case (3 a b queue mbs alo y ahi ya blo bhi i yc j k)
  show ?case
    using sum_list_butlast_last [OF 3(1), of window_size] by (simp add: window_size_def split: prod.splits)
qed

declare mb_loop.simps [simp del]

fun collapse :: "match \<Rightarrow> match list \<Rightarrow> match list" where
  \<comment> \<open>the loop of \<^verbatim>\<open>get_matching_blocks\<close> that joins adjacent blocks; the result is
      \<^verbatim>\<open>non_adjacent\<close>, in the order it is appended\<close>
  "collapse (i1, j1, k1) [] = (if k1 \<noteq> 0 then [(i1, j1, k1)] else [])"
| "collapse (i1, j1, k1) ((i2, j2, k2) # rest) =
     (if i1 + k1 = i2 \<and> j1 + k1 = j2 then collapse (i1, j1, k1 + k2) rest
      else (if k1 \<noteq> 0 then [(i1, j1, k1)] else []) @ collapse (i2, j2, k2) rest)"

definition get_matching_blocks :: "'a list \<Rightarrow> 'a list \<Rightarrow> match list" where
  "get_matching_blocks a b =
     collapse (0, 0, 0) (sort (mb_loop a b [(0, length a, 0, length b)] []))
       @ [(length a, length b, 0)]"

datatype tag = Replace | Delete | Insert | Equal

type_synonym opcode = "tag \<times> nat \<times> nat \<times> nat \<times> nat"

fun opcodes_loop :: "nat \<Rightarrow> nat \<Rightarrow> match list \<Rightarrow> opcode list" where
  \<comment> \<open>the loop of \<^verbatim>\<open>get_opcodes\<close>, with its variables \<open>i\<close> and \<open>j\<close>\<close>
  "opcodes_loop i j [] = []"
| "opcodes_loop i j ((ai, bj, sz) # rest) =
     (if i < ai \<and> j < bj then [(Replace, i, ai, j, bj)]
      else if i < ai then [(Delete, i, ai, j, bj)]
      else if j < bj then [(Insert, i, ai, j, bj)]
      else [])
     @ (if sz \<noteq> 0 then [(Equal, ai, ai + sz, bj, bj + sz)] else [])
     @ opcodes_loop (ai + sz) (bj + sz) rest"

definition get_opcodes :: "'a list \<Rightarrow> 'a list \<Rightarrow> opcode list" where
  "get_opcodes a b = opcodes_loop 0 0 (get_matching_blocks a b)"

section \<open>Edits and their attribution (fastapi\_server.py)\<close>

datatype change_type = Replaced | Deleted | Added

record change =
  ch_type :: change_type
  ch_from :: "pystr option"
  ch_to :: "pystr option"

record edit = change +
  error_type :: pystr
  micro_feedback :: pystr

text \<open>
  What a call can raise. \<^verbatim>\<open>RuntimeError\<close> is the one exception the program raises itself;
  \<open>ExceptionSubclass\<close> stands for any other exception whose class derives from
  \<^verbatim>\<open>Exception\<close>, and \<open>BaseExceptionOnly\<close> for one whose class derives from
  \<^verbatim>\<open>BaseException\<close> but not from \<^verbatim>\<open>Exception\<close> (\<^verbatim>\<open>KeyboardInterrupt\<close>,
  \<^verbatim>\<open>SystemExit\<close>, \<^verbatim>\<open>GeneratorExit\<close>); the argument is the name of the class or the
  message.
\<close>

datatype exn = RuntimeError pystr | ExceptionSubclass pystr | BaseExceptionOnly pystr

fun is_Exception :: "exn \<Rightarrow> bool" where
  \<comment> \<open>\<^verbatim>\<open>isinstance(e, Exception)\<close>: what \<^verbatim>\<open>except Exception\<close> catches\<close>
  "is_Exception (RuntimeError msg) = True"
| "is_Exception (ExceptionSubclass name) = True"
| "is_Exception (BaseExceptionOnly name) = False"

definition ARTICLES :: "pystr set" where
  "ARTICLES = {str ''a'', str ''an'', str ''the''}"

definition MICRO_FEEDBACK :: "(pystr \<times> pystr) list" where
  "MICRO_FEEDBACK =
     [(str ''agreement/plural'',
         str ''Check agreement (subject'' @ [8211] @ str ''verb and singular/plural nouns). ''
         @ str ''For 3rd person singular, use 'does/has/is' and add -s where needed.''),
      (str ''articles/determiners'',
         str ''Check articles and determiners (a/an/the/your). Use them when needed and remove extra ones.''),
      (str ''verb tense/form'',
         str ''Check verb tense and verb form (e.g., past vs present, infinitive vs -ing).''),
      (str ''prepositions'',
         str ''Check the preposition choice (e.g., 'in July' not 'on July').''),
      (str ''spelling'', str ''Fix spelling mistakes.''),
      (str ''word choice/form'', str ''Use the correct word or word form for the meaning.''),
      (str ''missing word'',
         str ''A word is missing'' @ [8212]
         @ str ''add the word needed for a complete/grammatical phrase.''),
      (str ''unnecessary word'',
         str ''Remove extra words that aren'' @ [8217] @ str ''t needed.''),
      (str ''punctuation'', str ''Fix punctuation (commas, full stops, capitalization).''),
      (str ''word order'', str ''Adjust word order to match natural English structure.''),
      (str ''other'', str ''Review this part for grammar/usage.'')]"

definition micro_feedback_for :: "pystr \<Rightarrow> pystr" where
  \<comment> \<open>\<^verbatim>\<open>MICRO_FEEDBACK.get(error_type, MICRO_FEEDBACK["other"])\<close>\<close>
  "micro_feedback_for et =
     (case map_of MICRO_FEEDBACK et of
        Some tip \<Rightarrow> tip
      | None \<Rightarrow> str ''Review this part for grammar/usage.'')"

definition py_or :: "pystr option \<Rightarrow> pystr \<Rightarrow> pystr" where
  \<comment> \<open>\<^verbatim>\<open>x or d\<close>: \<open>d\<close> when \<open>x\<close> is \<^verbatim>\<open>None\<close> or empty\<close>
  "py_or x d = (case x of None \<Rightarrow> d | Some s \<Rightarrow> if s = [] then d else s)"

definition normalize_pair_for_clf :: "unicode \<Rightarrow> pystr option \<Rightarrow> pystr option \<Rightarrow> pystr" where
  "normalize_pair_for_clf U frm to =
     str ''INC: '' @ strip U (py_or frm []) @ str '' || COR: '' @ strip U (py_or to [])"

definition endswith :: "pystr \<Rightarrow> pystr \<Rightarrow> bool" where
  "endswith s suffix = (length suffix \<le> length s \<and> drop (length s - length suffix) s = suffix)"

definition predict_error_type_heuristic :: "unicode \<Rightarrow> change \<Rightarrow> pystr" where
  "predict_error_type_heuristic U change =
     (let frm_raw = ch_from change;
          to_raw = ch_to change;
          frm = (if frm_raw = None \<or> frm_raw = Some [] then []
                 else lower U (strip U (py_or frm_raw [])));
          to = (if to_raw = None \<or> to_raw = Some [] then []
                else lower U (strip U (py_or to_raw [])))
      in if ch_type change = Added \<and> to \<in> ARTICLES then str ''articles/determiners''
         else if ch_type change = Replaced \<and> frm \<noteq> [] \<and> to \<noteq> []
                 \<and> (frm @ str ''s'' = to \<or> frm @ str ''es'' = to
                      \<or> (endswith frm (str ''y'') \<and> butlast frm @ str ''ies'' = to))
         then str ''agreement/plural''
         else if ch_type change = Added then str ''missing word''
         else if ch_type change = Deleted then str ''unnecessary word''
         else str ''other'')"

text \<open>
  The classifier is an object loaded from a file; all the program does with it is call
  \<^verbatim>\<open>predict([x])[0]\<close>, which returns a label or raises. The correction model is the
  same kind of capability: \<open>generate\<close> stands for tokenizing, \<^verbatim>\<open>model.generate\<close> and
  \<^verbatim>\<open>tokenizer.decode\<close>.
\<close>

record model_manager =
  loaded :: bool
  generate :: "pystr \<Rightarrow> int \<Rightarrow> exn + pystr"
  error_clf_loaded :: bool
  error_clf :: "(pystr \<Rightarrow> exn + pystr) option"

definition predict_error_type :: "unicode \<Rightarrow> model_manager \<Rightarrow> change \<Rightarrow> exn + pystr" where
  \<comment> \<open>the \<^verbatim>\<open>try\<close> returns the label; \<^verbatim>\<open>except Exception: pass\<close> catches what derives
      from \<^verbatim>\<open>Exception\<close> and falls through to the heuristic; anything else propagates\<close>
  "predict_error_type U mm change =
     (case (if error_clf_loaded mm \<and> error_clf mm \<noteq> None
            then (case error_clf mm of
                    None \<Rightarrow> Inr None
                  | Some predict \<Rightarrow>
                      (case predict (normalize_pair_for_clf U (ch_from change) (ch_to change)) of
                         Inr label \<Rightarrow> Inr (Some label)
                       | Inl e \<Rightarrow> if is_Exception e then Inr None else Inl e))
            else Inr None) of
        Inl e \<Rightarrow> Inl e
      | Inr (Some label) \<Rightarrow> Inr label
      | Inr None \<Rightarrow> Inr (predict_error_type_heuristic U change))"

definition slice :: "'a list \<Rightarrow> nat \<Rightarrow> nat \<Rightarrow> 'a list" where
  \<comment> \<open>\<^verbatim>\<open>xs[i1:i2]\<close>\<close>
  "slice xs i1 i2 = take (i2 - i1) (drop i1 xs)"

definition segment :: "pystr list \<Rightarrow> nat \<Rightarrow> nat \<Rightarrow> pystr" where
  \<comment> \<open>\<^verbatim>\<open>" ".join(tokens[i1:i2]).replace(" ,", ",").replace(" .", ".")\<close>\<close>
  "segment tokens i1 i2 =
     replace (str '' .'') (str ''.'')
       (replace (str '' ,'') (str '','') (join (str '' '') (slice tokens i1 i2)))"

definition make_change :: "pystr list \<Rightarrow> pystr list \<Rightarrow> opcode \<Rightarrow> change option" where
  \<comment> \<open>the body of the loop of \<^verbatim>\<open>identify_changes\<close> up to the \<^verbatim>\<open>else: continue\<close>\<close>
  "make_change o_tokens c_tokens op =
     (case op of (tag, i1, i2, j1, j2) \<Rightarrow>
        (let original_segment = segment o_tokens i1 i2;
             corrected_segment = segment c_tokens j1 j2
         in (case tag of
               Replace \<Rightarrow> Some \<lparr>ch_type = Replaced, ch_from = Some original_segment,
                                 ch_to = Some corrected_segment\<rparr>
             | Delete \<Rightarrow> Some \<lparr>ch_type = Deleted, ch_from = Some original_segment, ch_to = None\<rparr>
             | Insert \<Rightarrow> Some \<lparr>ch_type = Added, ch_from = None, ch_to = Some corrected_segment\<rparr>
             | Equal \<Rightarrow> None)))"

definition attributed :: "change \<Rightarrow> pystr \<Rightarrow> edit" where
  \<comment> \<open>the change with its keys \<^verbatim>\<open>error_type\<close> and \<^verbatim>\<open>micro_feedback\<close> set\<close>
  "attributed change et =
     \<lparr>ch_type = ch_type change, ch_from = ch_from change, ch_to = ch_to change,
      error_type = et, micro_feedback = micro_feedback_for et\<rparr>"

fun changes_loop ::
  "unicode \<Rightarrow> model_manager \<Rightarrow> pystr list \<Rightarrow> pystr list \<Rightarrow> opcode list \<Rightarrow> edit list
     \<Rightarrow> exn + edit list" where
  "changes_loop U mm o_tokens c_tokens [] changes = Inr changes"
| "changes_loop U mm o_tokens c_tokens (op # ops) changes =
     (if fst op = Equal then changes_loop U mm o_tokens c_tokens ops changes
      else (case make_change o_tokens c_tokens op of
              None \<Rightarrow> changes_loop U mm o_tokens c_tokens ops changes
            | Some change \<Rightarrow>
                (case predict_error_type U mm change of
                   Inl e \<Rightarrow> Inl e
                 | Inr et \<Rightarrow>
                     (let changes' = changes @ [attributed change et]
                      in if 50 \<le> length changes' then Inr changes'
                         else changes_loop U mm o_tokens c_tokens ops changes'))))"

definition identify_changes ::
  "unicode \<Rightarrow> model_manager \<Rightarrow> pystr \<Rightarrow> pystr \<Rightarrow> exn + edit list" where
  "identify_changes U mm original corrected =
     (let o_tokens = wp_tokenize U original;
          c_tokens = wp_tokenize U corrected
      in changes_loop U mm o_tokens c_tokens (get_opcodes o_tokens c_tokens) [])"

record correction_result =
  original :: pystr
  corrected :: pystr
  prompt :: pystr
  num_errors :: int
  score :: int
  changes :: "edit list"
  has_errors :: bool

definition INSTRUCTION_PREFIX :: pystr where
  "INSTRUCTION_PREFIX =
     str ''fix_grammar Keep meaning. Improve grammar, spelling, and punctuation. ''
     @ str ''Output only the corrected text.''"

definition score_changes ::
  "unicode \<Rightarrow> model_manager \<Rightarrow> pystr \<Rightarrow> pystr \<Rightarrow> pystr \<Rightarrow> exn + correction_result" where
  \<comment> \<open>\<^verbatim>\<open>correct_text\<close> from the call of \<^verbatim>\<open>identify_changes\<close> on\<close>
  "score_changes U mm student_input corrected_text prompt_text =
     (case identify_changes U mm student_input corrected_text of
        Inl e \<Rightarrow> Inl e
      | Inr chs \<Rightarrow>
          (let n = int (length chs)
           in Inr \<lparr>original = student_input, corrected = corrected_text, prompt = prompt_text,
                   num_errors = n, score = max 0 (10 - n), changes = chs,
                   has_errors = (0 < n)\<rparr>))"

definition correct_text ::
  "unicode \<Rightarrow> model_manager \<Rightarrow> pystr \<Rightarrow> pystr \<Rightarrow> int \<Rightarrow> exn + correction_result" where
  "correct_text U mm student_input prompt_text max_length =
     (if \<not> loaded mm then Inl (RuntimeError (str ''Model not loaded''))
      else (case generate mm (INSTRUCTION_PREFIX @ str '' '' @ student_input) max_length of
              Inl e \<Rightarrow> Inl e
            | Inr decoded \<Rightarrow> score_changes U mm student_input (strip U decoded) prompt_text))"

section \<open>Training examples (train\_fce\_error\_tagger.py)\<close>

definition FCE_TO_FRIENDLY :: "(pystr \<times> pystr) list" where
  "FCE_TO_FRIENDLY =
     [(str ''AGN'', str ''agreement/plural''),
      (str ''AGV'', str ''agreement/plural''),
      (str ''AGA'', str ''agreement/plural''),
      (str ''MD'', str ''articles/determiners''),
      (str ''MA'', str ''articles/determiners''),
      (str ''DD'', str ''articles/determiners''),
      (str ''UA'', str ''articles/determiners''),
      (str ''TV'', str ''verb tense/form''),
      (str ''FV'', str ''verb tense/form''),
      (str ''RV'', str ''verb tense/form''),
      (str ''UV'', str ''verb tense/form''),
      (str ''RT'', str ''prepositions''),
      (str ''S'', str ''spelling''),
      (str ''RJ'', str ''word choice/form''),
      (str ''RN'', str ''word choice/form''),
      (str ''FN'', str ''word choice/form''),
      (str ''R'', str ''word choice/form''),
      (str ''ID'', str ''word choice/form''),
      (str ''MT'', str ''missing word''),
      (str ''UT'', str ''unnecessary word''),
      (str ''RP'', str ''punctuation''),
      (str ''MP'', str ''punctuation''),
      (str ''UP'', str ''punctuation''),
      (str ''W'', str ''word order'')]"

record correction =
  corr_error_type :: "pystr option"
  incorrect :: "pystr option"
  correct :: "pystr option"

record item =
  corrections :: "correction list option"

definition friendly_of :: "pystr \<Rightarrow> pystr" where
  \<comment> \<open>\<^verbatim>\<open>FCE_TO_FRIENDLY.get(fce_code, "other")\<close>\<close>
  "friendly_of fce_code =
     (case map_of FCE_TO_FRIENDLY fce_code of Some f \<Rightarrow> f | None \<Rightarrow> str ''other'')"

fun corr_loop ::
  "unicode \<Rightarrow> int \<Rightarrow> int \<Rightarrow> correction list \<Rightarrow> pystr list \<times> pystr list
     \<Rightarrow> pystr list \<times> pystr list" where
  \<comment> \<open>the loop \<^verbatim>\<open>for corr in item.get("corrections", [])\<close>\<close>
  "corr_loop U min_len max_len [] (X, y) = (X, y)"
| "corr_loop U min_len max_len (corr # rest) (X, y) =
     (let fce_code = strip U (py_or (corr_error_type corr) (str ''UNKNOWN''));
          inc = strip U (py_or (incorrect corr) []);
          cor = strip U (py_or (correct corr) [])
      in if inc = [] \<and> cor = [] then corr_loop U min_len max_len rest (X, y)
         else (let inc_tokens = wp_tokenize_tagger U inc;
                   cor_tokens = wp_tokenize_tagger U cor
               in if int (length inc_tokens) < min_len \<and> int (length cor_tokens) < min_len
                  then corr_loop U min_len max_len rest (X, y)
                  else if max_len < int (length inc_tokens) \<or> max_len < int (length cor_tokens)
                  then corr_loop U min_len max_len rest (X, y)
                  else corr_loop U min_len max_len rest
                         (X @ [str ''INC: '' @ inc @ str '' || COR: '' @ cor],
                          y @ [friendly_of fce_code])))"

fun item_loop ::
  "unicode \<Rightarrow> int \<Rightarrow> int \<Rightarrow> item list \<Rightarrow> pystr list \<times> pystr list
     \<Rightarrow> pystr list \<times> pystr list" where
  \<comment> \<open>the loop \<^verbatim>\<open>for item in data\<close>\<close>
  "item_loop U min_len max_len [] acc = acc"
| "item_loop U min_len max_len (it # rest) acc =
     item_loop U min_len max_len rest
       (corr_loop U min_len max_len
          (case corrections it of None \<Rightarrow> [] | Some cs \<Rightarrow> cs) acc)"

definition build_error_type_examples ::
  "unicode \<Rightarrow> item list \<Rightarrow> int \<Rightarrow> int \<Rightarrow> pystr list \<times> pystr list" where
  "build_error_type_examples U data min_len max_len = item_loop U min_len max_len data ([], [])"

section \<open>Properties of the aligner\<close>

subsection \<open>Matching blocks are ordered\<close>

definition rect :: "match \<Rightarrow> window" where
  "rect m = (case m of (i, j, k) \<Rightarrow> (i, i + k, j, j + k))"

definition before :: "window \<Rightarrow> window \<Rightarrow> bool" where
  "before w z = (case w of (alo, ahi, blo, bhi) \<Rightarrow>
                   (case z of (alo', ahi', blo', bhi') \<Rightarrow> ahi \<le> alo' \<and> bhi \<le> blo'))"

definition apart :: "window \<Rightarrow> window \<Rightarrow> bool" where
  "apart w z = (before w z \<or> before z w)"

definition inside :: "window \<Rightarrow> window \<Rightarrow> bool" where
  "inside w z = (case w of (alo, ahi, blo, bhi) \<Rightarrow>
                   (case z of (alo', ahi', blo', bhi') \<Rightarrow>
                      alo' \<le> alo \<and> ahi \<le> ahi' \<and> blo' \<le> blo \<and> bhi \<le> bhi'))"

lemma apart_sym: "apart w z \<Longrightarrow> apart z w"
  by (auto simp: apart_def)

lemma apart_inside: "apart w z \<Longrightarrow> inside v w \<Longrightarrow> apart v z"
  by (auto simp: apart_def before_def inside_def split: prod.splits)

definition mb_inv :: "nat \<Rightarrow> nat \<Rightarrow> window list \<Rightarrow> match list \<Rightarrow> bool" where
  "mb_inv la lb queue mbs =
     ((\<forall>x \<in> set mbs. 0 < snd (snd x) \<and> inside (rect x) (0, la, 0, lb))
      \<and> (\<forall>w \<in> set queue. inside w (0, la, 0, lb))
      \<and> distinct mbs
      \<and> (\<forall>x \<in> set mbs. \<forall>y \<in> set mbs. x \<noteq> y \<longrightarrow> apart (rect x) (rect y))
      \<and> (\<forall>w \<in> set queue. \<forall>x \<in> set mbs. apart w (rect x))
      \<and> sorted_wrt apart queue)"

lemma mb_inv_step:
  assumes inv: "mb_inv la lb (q @ [(alo, ahi, blo, bhi)]) mbs"
    and ok: "0 < k" "alo \<le> i" "i + k \<le> ahi" "blo \<le> j" "j + k \<le> bhi"
  shows "mb_inv la lb
           (q @ (if alo < i \<and> blo < j then [(alo, i, blo, j)] else [])
              @ (if i + k < ahi \<and> j + k < bhi then [(i + k, ahi, j + k, bhi)] else []))
           (mbs @ [(i, j, k)])"
proof -
  let ?W = "(alo, ahi, blo, bhi)"
  let ?X = "(i, j, k)"
  let ?L = "(alo, i, blo, j)"
  let ?R = "(i + k, ahi, j + k, bhi)"
  have W: "inside ?W (0, la, 0, lb)" using inv by (simp add: mb_inv_def)
  have iX: "inside (rect ?X) ?W" and iL: "inside ?L ?W" and iR: "inside ?R ?W"
    using ok by (auto simp: inside_def rect_def)
  have LX: "apart ?L (rect ?X)" and RX: "apart ?R (rect ?X)" and LR: "apart ?L ?R"
    by (auto simp: apart_def before_def rect_def)
  have Wm: "\<forall>x \<in> set mbs. apart ?W (rect x)" using inv by (simp add: mb_inv_def)
  have Wq: "\<forall>w \<in> set q. apart w ?W"
    using inv by (auto simp: mb_inv_def sorted_wrt_append)
  have Xnew: "?X \<notin> set mbs"
  proof
    assume "?X \<in> set mbs"
    then have "apart ?W (rect ?X)" using Wm by blast
    then show False using ok by (auto simp: apart_def before_def rect_def)
  qed
  have Xm: "\<forall>x \<in> set mbs. apart (rect ?X) (rect x)"
    using Wm apart_inside [OF _ iX] by blast
  have Lm: "\<forall>x \<in> set mbs. apart ?L (rect x)"
    using Wm apart_inside [OF _ iL] by blast
  have Rm: "\<forall>x \<in> set mbs. apart ?R (rect x)"
    using Wm apart_inside [OF _ iR] by blast
  have Xq: "\<forall>w \<in> set q. apart w (rect ?X)"
    using Wq apart_sym apart_inside [OF _ iX] by blast
  have Lq: "\<forall>w \<in> set q. apart w ?L"
    using Wq apart_sym apart_inside [OF _ iL] by blast
  have Rq: "\<forall>w \<in> set q. apart w ?R"
    using Wq apart_sym apart_inside [OF _ iR] by blast
  have in_trans: "inside v ?W \<Longrightarrow> inside v (0, la, 0, lb)" for v
    using W by (auto simp: inside_def split: prod.splits)
  have c1: "\<forall>x \<in> set (mbs @ [?X]). 0 < snd (snd x) \<and> inside (rect x) (0, la, 0, lb)"
    using inv ok(1) in_trans [OF iX] by (auto simp: mb_inv_def)
  have c2: "\<forall>w \<in> set (q @ (if alo < i \<and> blo < j then [?L] else [])
              @ (if i + k < ahi \<and> j + k < bhi then [?R] else [])). inside w (0, la, 0, lb)"
    using inv in_trans [OF iL] in_trans [OF iR] by (auto simp: mb_inv_def)
  have c3: "distinct (mbs @ [?X])" using inv Xnew by (simp add: mb_inv_def)
  have c4: "\<forall>x \<in> set (mbs @ [?X]). \<forall>y \<in> set (mbs @ [?X]).
              x \<noteq> y \<longrightarrow> apart (rect x) (rect y)"
    using inv Xm apart_sym by (auto simp: mb_inv_def)
  have qm: "\<forall>w \<in> set q. \<forall>x \<in> set mbs. apart w (rect x)"
    using inv by (simp add: mb_inv_def)
  have c5: "\<forall>w \<in> set (q @ (if alo < i \<and> blo < j then [?L] else [])
              @ (if i + k < ahi \<and> j + k < bhi then [?R] else [])).
            \<forall>x \<in> set (mbs @ [?X]). apart w (rect x)"
    using qm Xq Lm Rm LX RX by auto
  have qs: "sorted_wrt apart q" using inv by (simp add: mb_inv_def sorted_wrt_append)
  have c6: "sorted_wrt apart (q @ (if alo < i \<and> blo < j then [?L] else [])
              @ (if i + k < ahi \<and> j + k < bhi then [?R] else []))"
    using qs Lq Rq LR by (auto simp: sorted_wrt_append)
  show ?thesis unfolding mb_inv_def using c1 c2 c3 c4 c5 c6 by blast
qed

lemma mb_inv_drop:
  "mb_inv la lb (q @ [w]) mbs \<Longrightarrow> mb_inv la lb q mbs"
  by (auto simp: mb_inv_def sorted_wrt_append)

lemma mb_loop_inv:
  "mb_inv la lb queue mbs \<Longrightarrow> mb_inv la lb [] (mb_loop a b queue mbs)"
proof (induction a b queue mbs rule: mb_loop.induct)
  case (1 a b queue mbs)
  show ?case
  proof (cases "queue = []")
    case True
    then show ?thesis using "1.prems" by (subst mb_loop.simps) simp
  next
    case False
    obtain alo ahi blo bhi where w: "last queue = (alo, ahi, blo, bhi)"
      by (cases "last queue") auto
    obtain i j k where m: "find_longest_match a b alo ahi blo bhi = (i, j, k)"
      by (cases "find_longest_match a b alo ahi blo bhi") auto
    have q: "queue = butlast queue @ [(alo, ahi, blo, bhi)]"
      using False w by (metis append_butlast_last_id)
    show ?thesis
    proof (cases "k = 0")
      case True
      have "mb_inv la lb (butlast queue) mbs"
        using "1.prems" q mb_inv_drop by metis
      then have "mb_inv la lb [] (mb_loop a b (butlast queue) mbs)"
        using "1.IH"(2) [OF False w [symmetric] refl refl m [symmetric] refl] True by simp
      moreover have "mb_loop a b queue mbs = mb_loop a b (butlast queue) mbs"
        using False w m True by (subst mb_loop.simps) simp
      ultimately show ?thesis by simp
    next
      case nz: False
      have b: "0 < k" "alo \<le> i" "i + k \<le> ahi" "blo \<le> j" "j + k \<le> bhi"
        using find_longest_match_ok [of alo ahi blo bhi a b] nz
        unfolding m best_ok_def by auto
      let ?q' = "butlast queue @ (if alo < i \<and> blo < j then [(alo, i, blo, j)] else [])
              @ (if i + k < ahi \<and> j + k < bhi then [(i + k, ahi, j + k, bhi)] else [])"
      have "mb_inv la lb ?q' (mbs @ [(i, j, k)])"
        using mb_inv_step [OF _ b, of la lb "butlast queue" mbs] "1.prems" q by simp
      then have "mb_inv la lb [] (mb_loop a b ?q' (mbs @ [(i, j, k)]))"
        using "1.IH"(1) [OF False w [symmetric] refl refl m [symmetric] refl] nz by simp
      moreover have "mb_loop a b queue mbs = mb_loop a b ?q' (mbs @ [(i, j, k)])"
        using False w m nz by (subst mb_loop.simps) simp
      ultimately show ?thesis by simp
    qed
  qed
qed

lemma sorted_blocks:
  assumes "mb_inv la lb [] mbs"
  shows "sorted_wrt (\<lambda>x y. before (rect x) (rect y)) (sort mbs)"
proof -
  have "sorted_wrt (<) (sort mbs)"
    using assms by (simp add: strict_sorted_iff mb_inv_def)
  moreover have "before (rect x) (rect y)"
    if "x \<in> set (sort mbs)" "y \<in> set (sort mbs)" "x < y" for x y
  proof -
    obtain i j k i' j' k' where x: "x = (i, j, k)" and y: "y = (i', j', k')"
      by (cases x, cases y) auto
    have "apart (rect x) (rect y)" and "0 < k'"
      using assms that unfolding mb_inv_def x y by auto
    moreover have "\<not> before (rect y) (rect x)"
      using that(3) \<open>0 < k'\<close> unfolding x y by (auto simp: before_def rect_def)
    ultimately show ?thesis by (simp add: apart_def)
  qed
  ultimately show ?thesis
    using sorted_wrt_mono_rel [of "sort mbs" "(<)" "\<lambda>x y. before (rect x) (rect y)"] by blast
qed

fun mono_from :: "nat \<Rightarrow> nat \<Rightarrow> match list \<Rightarrow> bool" where
  "mono_from i j [] = True"
| "mono_from i j ((ai, bj, sz) # rest) = (i \<le> ai \<and> j \<le> bj \<and> mono_from (ai + sz) (bj + sz) rest)"

lemma collapse_mono:
  "i \<le> i1 \<Longrightarrow> j \<le> j1 \<Longrightarrow>
   sorted_wrt (\<lambda>x y. before (rect x) (rect y)) ((i1, j1, k1) # bl) \<Longrightarrow>
   \<forall>x \<in> set ((i1, j1, k1) # bl). inside (rect x) (0, la, 0, lb) \<Longrightarrow>
   mono_from i j (collapse (i1, j1, k1) bl @ [(la, lb, 0)])"
proof (induction bl arbitrary: i j i1 j1 k1)
  case Nil
  then show ?case by (auto simp: inside_def rect_def)
next
  case (Cons x rest)
  obtain i2 j2 k2 where x: "x = (i2, j2, k2)" by (cases x) auto
  have f: "i1 + k1 \<le> i2" "j1 + k1 \<le> j2"
    using Cons.prems(3) by (auto simp: x before_def rect_def)
  have s: "sorted_wrt (\<lambda>x y. before (rect x) (rect y)) ((i2, j2, k2) # rest)"
    using Cons.prems(3) by (simp add: x)
  have ins: "\<forall>x \<in> set ((i2, j2, k2) # rest). inside (rect x) (0, la, 0, lb)"
    using Cons.prems(4) by (simp add: x)
  show ?case
  proof (cases "i1 + k1 = i2 \<and> j1 + k1 = j2")
    case True
    have s': "sorted_wrt (\<lambda>x y. before (rect x) (rect y)) ((i1, j1, k1 + k2) # rest)"
      using s True by (auto simp: before_def rect_def)
    have ins': "\<forall>x \<in> set ((i1, j1, k1 + k2) # rest). inside (rect x) (0, la, 0, lb)"
      using ins True by (auto simp: inside_def rect_def)
    show ?thesis
      using Cons.IH [OF Cons.prems(1,2) s' ins'] True by (simp add: x)
  next
    case False
    show ?thesis
    proof (cases "k1 = 0")
      case True
      have "mono_from i j (collapse (i2, j2, k2) rest @ [(la, lb, 0)])"
        using Cons.IH [OF _ _ s ins, of i j] Cons.prems(1,2) f by simp
      then show ?thesis using False True by (auto simp: x)
    next
      case nz: False
      have "mono_from (i1 + k1) (j1 + k1) (collapse (i2, j2, k2) rest @ [(la, lb, 0)])"
        using Cons.IH [OF f s ins] .
      then show ?thesis using False nz Cons.prems(1,2) by (auto simp: x)
    qed
  qed
qed

lemma get_matching_blocks_mono:
  "mono_from 0 0 (get_matching_blocks a b)"
proof -
  let ?la = "length a" and ?lb = "length b"
  have "mb_inv ?la ?lb [(0, ?la, 0, ?lb)] []"
    by (simp add: mb_inv_def inside_def)
  then have inv: "mb_inv ?la ?lb [] (mb_loop a b [(0, ?la, 0, ?lb)] [])"
    by (rule mb_loop_inv)
  let ?bl = "sort (mb_loop a b [(0, ?la, 0, ?lb)] [])"
  have s: "sorted_wrt (\<lambda>x y. before (rect x) (rect y)) ((0, 0, 0) # ?bl)"
    using sorted_blocks [OF inv] by (auto simp: before_def rect_def split: prod.splits)
  have i: "\<forall>x \<in> set ((0, 0, 0) # ?bl). inside (rect x) (0, ?la, 0, ?lb)"
    using inv by (auto simp: mb_inv_def inside_def rect_def)
  show ?thesis
    unfolding get_matching_blocks_def using collapse_mono [OF _ _ s i, of 0 0] by simp
qed

definition original_range :: "opcode \<Rightarrow> nat list" where
  "original_range op = (case op of (tag, i1, i2, j1, j2) \<Rightarrow> [i1..<i2])"

definition corrected_range :: "opcode \<Rightarrow> nat list" where
  "corrected_range op = (case op of (tag, i1, i2, j1, j2) \<Rightarrow> [j1..<j2])"

fun partitions :: "nat \<Rightarrow> nat \<Rightarrow> opcode list \<Rightarrow> nat \<Rightarrow> nat \<Rightarrow> bool" where
  "partitions i j [] la lb = (i = la \<and> j = lb)"
| "partitions i j ((tag, i1, i2, j1, j2) # ops) la lb =
     (i1 = i \<and> j1 = j \<and> i1 \<le> i2 \<and> j1 \<le> j2 \<and> partitions i2 j2 ops la lb)"

lemma opcodes_loop_partitions:
  "mono_from i j (blocks @ [(la, lb, 0)]) \<Longrightarrow>
   partitions i j (opcodes_loop i j (blocks @ [(la, lb, 0)])) la lb"
proof (induction blocks arbitrary: i j)
  case Nil
  then show ?case by auto
next
  case (Cons x blocks)
  obtain ai bj sz where x: "x = (ai, bj, sz)" by (cases x) auto
  have "partitions (ai + sz) (bj + sz) (opcodes_loop (ai + sz) (bj + sz) (blocks @ [(la, lb, 0)])) la lb"
    using Cons by (simp add: x)
  then show ?case using Cons.prems by (auto simp: x)
qed

lemma partitions_ranges:
  "partitions i j ops la lb \<Longrightarrow>
   i \<le> la \<and> j \<le> lb
   \<and> concat (map original_range ops) = [i..<la]
   \<and> concat (map corrected_range ops) = [j..<lb]"
proof (induction ops arbitrary: i j)
  case Nil
  then show ?case by simp
next
  case (Cons op ops)
  obtain tag i1 i2 j1 j2 where op: "op = (tag, i1, i2, j1, j2)" by (cases op) auto
  have p: "i1 = i" "j1 = j" "i \<le> i2" "j \<le> j2" "partitions i2 j2 ops la lb"
    using Cons.prems by (auto simp: op)
  from Cons.IH [OF p(5)] have ih: "i2 \<le> la" "j2 \<le> lb"
    "concat (map original_range ops) = [i2..<la]"
    "concat (map corrected_range ops) = [j2..<lb]"
    by auto
  have u: "[x..<y] @ [y..<z] = [x..<z]" if "x \<le> y" "y \<le> z" for x y z :: nat
    using that by (metis le_Suc_ex upt_add_eq_append)
  have h: "original_range op = [i..<i2]" "corrected_range op = [j..<j2]"
    using p by (simp_all add: op original_range_def corrected_range_def)
  show ?case using p ih u by (simp add: h)
qed


subsection \<open>Aligning a sequence with itself\<close>

fun nprun :: "'a list \<Rightarrow> nat \<Rightarrow> nat \<Rightarrow> nat" where
  "nprun s lo 0 = (if lo = 0 \<and> \<not> bpopular s (s ! 0) then 1 else 0)"
| "nprun s lo (Suc t) =
     (if Suc t < lo \<or> bpopular s (s ! Suc t) then 0
      else if Suc t = lo then 1 else Suc (nprun s lo t))"

definition dprev :: "'a list \<Rightarrow> nat \<Rightarrow> nat \<Rightarrow> nat" where
  "dprev s lo i = (if i \<le> lo then 0 else nprun s lo (i - 1))"

lemma nprun_step:
  "lo \<le> i \<Longrightarrow> nprun s lo i = (if bpopular s (s ! i) then 0 else dprev s lo i + 1)"
  by (cases i) (auto simp: dprev_def)

definition prev_ok :: "'a list \<Rightarrow> nat \<Rightarrow> nat \<Rightarrow> (nat \<rightharpoonup> nat) \<Rightarrow> bool" where
  "prev_ok s lo i m =
     ((\<forall>j v. m j = Some v \<longrightarrow> lo \<le> j \<and> v \<le> dprev s lo i \<and> v \<le> nprun s lo j)
      \<and> j2lenget m i = dprev s lo i)"

definition inner_ok ::
  "'a list \<Rightarrow> nat \<Rightarrow> nat \<Rightarrow> nat list \<Rightarrow> (nat \<rightharpoonup> nat) \<times> match \<Rightarrow> bool" where
  "inner_ok s lo i js st =
     (case st of (new, (bi, bj, bs)) \<Rightarrow>
        bi = bj
        \<and> (\<forall>t. lo \<le> t \<and> t < i \<longrightarrow> nprun s lo t \<le> bs)
        \<and> (i \<in> set js \<or> (new i = Some (nprun s lo i) \<and> nprun s lo i \<le> bs))
        \<and> (\<forall>j v. new j = Some v \<longrightarrow> lo \<le> j \<and> v \<le> nprun s lo i \<and> v \<le> nprun s lo j))"

lemma j2lenget_prev:
  assumes "prev_ok s lo i m" "lo \<le> j"
  shows "j2lenget m j \<le> dprev s lo i \<and> j2lenget m j \<le> dprev s lo j"
proof (cases "j = 0")
  case True
  then show ?thesis by (simp add: j2lenget_def)
next
  case False
  show ?thesis
  proof (cases "m (j - 1)")
    case None
    then show ?thesis using False by (simp add: j2lenget_def)
  next
    case (Some v)
    then have "lo \<le> j - 1 \<and> v \<le> dprev s lo i \<and> v \<le> nprun s lo (j - 1)"
      using assms(1) by (simp add: prev_ok_def)
    then show ?thesis using False Some by (auto simp: j2lenget_def dprev_def)
  qed
qed

lemma flm_inner_diag:
  assumes prev: "prev_ok s lo i m" and i: "lo \<le> i" "i < hi"
    and np: "\<not> bpopular s (s ! i)"
  shows "sorted_wrt (<) js \<Longrightarrow> \<forall>j \<in> set js. s ! j = s ! i \<Longrightarrow> inner_ok s lo i js st \<Longrightarrow>
         inner_ok s lo i [] (flm_inner i lo hi m js st)"
proof (induction js arbitrary: st)
  case Nil
  then show ?case by simp
next
  case (Cons j js)
  obtain new bi bj bs where st: "st = (new, (bi, bj, bs))" by (cases st) auto
  have srt: "sorted_wrt (<) js" and eq: "\<forall>j \<in> set js. s ! j = s ! i"
    using Cons.prems by auto
  have notin: "i < j \<Longrightarrow> i \<notin> set (j # js)"
    using Cons.prems(1) by auto
  have inv: "bi = bj" "\<forall>t. lo \<le> t \<and> t < i \<longrightarrow> nprun s lo t \<le> bs"
    "i \<in> set (j # js) \<or> (new i = Some (nprun s lo i) \<and> nprun s lo i \<le> bs)"
    "\<forall>j v. new j = Some v \<longrightarrow> lo \<le> j \<and> v \<le> nprun s lo i \<and> v \<le> nprun s lo j"
    using Cons.prems(3) by (auto simp: inner_ok_def st)
  show ?case
  proof (cases "j < lo")
    case True
    then have "j \<noteq> i" using i by simp
    then have "inner_ok s lo i js st" using inv by (auto simp: inner_ok_def st)
    from Cons.IH [OF srt eq this] show ?thesis using True by (simp add: st)
  next
    case lo: False
    show ?thesis
    proof (cases "hi \<le> j")
      case True
      then have "i \<notin> set (j # js)" using notin i by simp
      then have "inner_ok s lo i [] st" using inv by (auto simp: inner_ok_def st)
      then show ?thesis using lo True by (simp add: st)
    next
      case hi: False
      let ?k = "j2lenget m j + 1"
      have npj: "\<not> bpopular s (s ! j)" using Cons.prems(2) np by simp
      have jlo: "lo \<le> j" using lo by simp
      have ni: "nprun s lo i = dprev s lo i + 1" using nprun_step [OF i(1), of s] np by simp
      have nj: "nprun s lo j = dprev s lo j + 1" using nprun_step [OF jlo, of s] npj by simp
      have k: "?k \<le> nprun s lo i" "?k \<le> nprun s lo j"
        using j2lenget_prev [OF prev jlo] ni nj by auto
      have ki: "j = i \<Longrightarrow> ?k = nprun s lo i"
        using prev ni by (simp add: prev_ok_def)
      have step: "flm_inner i lo hi m (j # js) st =
          flm_inner i lo hi m js
            (new(j \<mapsto> ?k), if bs < ?k then (i + 1 - ?k, j + 1 - ?k, ?k) else (bi, bj, bs))"
        using lo hi by (simp add: st Let_def)
      have small: "j \<noteq> i \<Longrightarrow> ?k \<le> bs"
      proof -
        assume ne: "j \<noteq> i"
        show "?k \<le> bs"
        proof (cases "j < i")
          case True
          then have "nprun s lo j \<le> bs" using inv(2) jlo by simp
          then show ?thesis using k(2) by simp
        next
          case False
          then have "i < j" using ne by simp
          then have "nprun s lo i \<le> bs" using notin inv(3) by blast
          then show ?thesis using k(1) by simp
        qed
      qed
      have "inner_ok s lo i js
              (new(j \<mapsto> ?k), if bs < ?k then (i + 1 - ?k, j + 1 - ?k, ?k) else (bi, bj, bs))"
      proof (cases "j = i")
        case True
        then show ?thesis using inv k ki i by (auto simp: inner_ok_def)
      next
        case False
        then show ?thesis using inv k small [OF False] jlo by (auto simp: inner_ok_def)
      qed
      from Cons.IH [OF srt eq this] show ?thesis by (simp only: step)
    qed
  qed
qed

lemma b2j_all_sorted: "sorted_wrt (<) (b2j_all b x)"
  by (simp add: b2j_all_def sorted_wrt_filter)

lemma flm_row_diag:
  assumes prev: "prev_ok s lo i m" and i: "lo \<le> i" "i < hi" "hi \<le> length s"
    and best: "bi = bj" "\<forall>t. lo \<le> t \<and> t < i \<longrightarrow> nprun s lo t \<le> bs"
  shows "\<exists>m' bi' bs'. flm_inner i lo hi m (b2j s (s ! i)) (Map.empty, (bi, bj, bs)) = (m', (bi', bi', bs'))
           \<and> prev_ok s lo (Suc i) m' \<and> (\<forall>t. lo \<le> t \<and> t < Suc i \<longrightarrow> nprun s lo t \<le> bs')"
proof (cases "bpopular s (s ! i)")
  case True
  have z: "nprun s lo i = 0" using nprun_step [OF i(1), of s] True by simp
  have "prev_ok s lo (Suc i) Map.empty"
    using i(1) z by (simp add: prev_ok_def j2lenget_def dprev_def)
  moreover have "\<forall>t. lo \<le> t \<and> t < Suc i \<longrightarrow> nprun s lo t \<le> bs"
    using best(2) z by (auto simp: less_Suc_eq)
  ultimately show ?thesis using True best(1) by (simp add: b2j_def)
next
  case False
  let ?js = "b2j_all s (s ! i)"
  have mem: "i \<in> set ?js" using i by (simp add: b2j_all_def)
  have eq: "\<forall>j \<in> set ?js. s ! j = s ! i" by (simp add: b2j_all_def)
  have init: "inner_ok s lo i ?js (Map.empty, (bi, bj, bs))"
    using best mem by (simp add: inner_ok_def)
  obtain m' bi' bj' bs' where r: "flm_inner i lo hi m ?js (Map.empty, (bi, bj, bs)) = (m', (bi', bj', bs'))"
    by (metis prod.exhaust)
  have post: "inner_ok s lo i [] (m', (bi', bj', bs'))"
    using flm_inner_diag [OF prev i(1,2) False b2j_all_sorted eq init] r by simp
  then have p: "bi' = bj'" "\<forall>t. lo \<le> t \<and> t < i \<longrightarrow> nprun s lo t \<le> bs'"
    "m' i = Some (nprun s lo i)" "nprun s lo i \<le> bs'"
    "\<forall>j v. m' j = Some v \<longrightarrow> lo \<le> j \<and> v \<le> nprun s lo i \<and> v \<le> nprun s lo j"
    by (auto simp: inner_ok_def)
  have d: "dprev s lo (Suc i) = nprun s lo i"
    using i(1) by (simp add: dprev_def)
  have "prev_ok s lo (Suc i) m'"
    unfolding prev_ok_def d using p(3,5) by (simp add: j2lenget_def)
  moreover have "\<forall>t. lo \<le> t \<and> t < Suc i \<longrightarrow> nprun s lo t \<le> bs'"
    using p(2,4) by (auto simp: less_Suc_eq)
  ultimately show ?thesis using False r p(1) by (simp add: b2j_def)
qed

lemma flm_outer_diag:
  "lo \<le> i0 \<Longrightarrow> hi \<le> length s \<Longrightarrow> prev_ok s lo i0 m \<Longrightarrow>
   \<forall>t. lo \<le> t \<and> t < i0 \<longrightarrow> nprun s lo t \<le> bs \<Longrightarrow>
   \<exists>bi' bs'. snd (flm_outer s s lo hi [i0..<hi] (m, (bi, bi, bs))) = (bi', bi', bs')"
proof (induction "hi - i0" arbitrary: i0 m bi bs)
  case 0
  then show ?case by simp
next
  case (Suc d)
  then have lt: "i0 < hi" by simp
  obtain m' bi' bs' where
    r: "flm_inner i0 lo hi m (b2j s (s ! i0)) (Map.empty, (bi, bi, bs)) = (m', (bi', bi', bs'))"
    and p: "prev_ok s lo (Suc i0) m'" "\<forall>t. lo \<le> t \<and> t < Suc i0 \<longrightarrow> nprun s lo t \<le> bs'"
    using flm_row_diag [OF Suc.prems(3) Suc.prems(1) lt Suc.prems(2) refl Suc.prems(4)]
    by blast
  have "\<exists>bi'' bs''. snd (flm_outer s s lo hi [Suc i0..<hi] (m', (bi', bi', bs'))) = (bi'', bi'', bs'')"
  proof (rule Suc.hyps(1))
    show "d = hi - Suc i0" using Suc.hyps(2) by simp
    show "lo \<le> Suc i0" using Suc.prems(1) by simp
  qed (use Suc.prems(2) p in auto)
  then show ?case using lt r by (simp add: upt_conv_Cons)
qed

lemma extend_left_diag:
  "lo \<le> bi \<Longrightarrow> extend_left s s lo lo (bi, bi, bs) = (lo, lo, bs + (bi - lo))"
proof (induction "bi - lo" arbitrary: bi bs)
  case 0
  then show ?case by (subst extend_left.simps) simp
next
  case (Suc d)
  have lt: "lo < bi" using Suc.hyps(2) by arith
  from Suc have "extend_left s s lo lo (bi - 1, bi - 1, bs + 1) = (lo, lo, bs + 1 + (bi - 1 - lo))"
    by (intro Suc.hyps(1)) auto
  moreover have "extend_left s s lo lo (bi, bi, bs) = extend_left s s lo lo (bi - 1, bi - 1, bs + 1)"
    using lt by (subst extend_left.simps) simp
  ultimately show ?case using Suc.hyps(2) by simp
qed

lemma extend_right_diag:
  "lo + bs \<le> hi \<Longrightarrow> extend_right s s hi hi (lo, lo, bs) = (lo, lo, hi - lo)"
proof (induction "hi - (lo + bs)" arbitrary: bs)
  case 0
  then show ?case by (subst extend_right.simps) simp
next
  case (Suc d)
  have lt: "lo + bs < hi" using Suc.hyps(2) by arith
  from Suc have "extend_right s s hi hi (lo, lo, bs + 1) = (lo, lo, hi - lo)"
    by (intro Suc.hyps(1)) auto
  moreover have "extend_right s s hi hi (lo, lo, bs) = extend_right s s hi hi (lo, lo, bs + 1)"
    using lt by (subst extend_right.simps) simp
  ultimately show ?case by simp
qed

lemma find_longest_match_same:
  assumes "lo \<le> hi" "hi \<le> length s"
  shows "find_longest_match s s lo hi lo hi = (lo, lo, hi - lo)"
proof -
  let ?best = "snd (flm_outer s s lo hi [lo..<hi] (Map.empty, (lo, lo, 0)))"
  have "prev_ok s lo lo Map.empty" by (simp add: prev_ok_def j2lenget_def dprev_def)
  then obtain bi bs where b: "?best = (bi, bi, bs)"
    using flm_outer_diag [OF le_refl assms(2), of lo Map.empty 0 lo] by auto
  have "best_ok lo hi lo hi ?best"
    by (intro flm_outer_ok) (simp_all add: row_ok_def best_ok_def)
  then have bd: "lo \<le> bi" "bi + bs \<le> hi"
    using assms(1) by (auto simp: b best_ok_def)
  have "extend_left s s lo lo ?best = (lo, lo, bs + (bi - lo))"
    using extend_left_diag [OF bd(1)] by (simp add: b)
  moreover have "lo + (bs + (bi - lo)) \<le> hi" using bd by simp
  ultimately show ?thesis
    unfolding find_longest_match_def using extend_right_diag by simp
qed

lemma get_opcodes_same:
  "get_opcodes s s = (if s = [] then [] else [(Equal, 0, length s, 0, length s)])"
proof -
  have m: "find_longest_match s s 0 (length s) 0 (length s) = (0, 0, length s)"
    using find_longest_match_same [of 0 "length s" s] by simp
  have e: "mb_loop a b [] mbs = mbs" for a b :: "'a list" and mbs
    by (subst mb_loop.simps) simp
  have "mb_loop s s [(0, length s, 0, length s)] [] = (if s = [] then [] else [(0, 0, length s)])"
    by (subst mb_loop.simps) (simp add: m e)
  then show ?thesis
    by (simp add: get_opcodes_def get_matching_blocks_def)
qed

lemma changes_loop_equal:
  "\<forall>op \<in> set ops. fst op = Equal \<Longrightarrow> changes_loop U mm a b ops acc = Inr acc"
  by (induction ops) auto



section \<open>Properties of the edit extractor\<close>

subsection \<open>The edits that the loop of identify\_changes collects\<close>

definition attributed_label :: "unicode \<Rightarrow> model_manager \<Rightarrow> change \<Rightarrow> pystr" where
  \<comment> \<open>the label of a change, when \<^verbatim>\<open>_predict_error_type\<close> returns one\<close>
  "attributed_label U mm ch =
     (if error_clf_loaded mm then
        (case error_clf mm of
           None \<Rightarrow> predict_error_type_heuristic U ch
         | Some predict \<Rightarrow>
             (case predict (normalize_pair_for_clf U (ch_from ch) (ch_to ch)) of
                Inr label \<Rightarrow> label
              | Inl e \<Rightarrow> predict_error_type_heuristic U ch))
      else predict_error_type_heuristic U ch)"

definition raises_only_Exception :: "model_manager \<Rightarrow> bool" where
  \<comment> \<open>whatever the classifier raises derives from \<^verbatim>\<open>Exception\<close>\<close>
  "raises_only_Exception mm =
     (\<forall>predict x e. error_clf mm = Some predict \<and> predict x = Inl e \<longrightarrow> is_Exception e)"

lemma predict_error_type_Inr:
  "predict_error_type U mm ch = Inr l \<Longrightarrow> l = attributed_label U mm ch"
  by (auto simp: predict_error_type_def attributed_label_def
      split: option.splits sum.splits if_splits)

lemma predict_error_type_total:
  "raises_only_Exception mm \<Longrightarrow>
   predict_error_type U mm ch = Inr (attributed_label U mm ch)"
  by (auto simp: predict_error_type_def attributed_label_def raises_only_Exception_def
      split: option.splits sum.splits)

definition edit_of_opcode ::
  "unicode \<Rightarrow> model_manager \<Rightarrow> pystr list \<Rightarrow> pystr list \<Rightarrow> opcode \<Rightarrow> edit list" where
  "edit_of_opcode U mm a b op =
     (case make_change a b op of
        None \<Rightarrow> []
      | Some ch \<Rightarrow> [attributed ch (attributed_label U mm ch)])"

definition all_edits ::
  "unicode \<Rightarrow> model_manager \<Rightarrow> pystr list \<Rightarrow> pystr list \<Rightarrow> opcode list \<Rightarrow> edit list" where
  "all_edits U mm a b ops = concat (map (edit_of_opcode U mm a b) ops)"

lemma edit_of_opcode_length:
  "length (edit_of_opcode U mm a b op) = (if fst op = Equal then 0 else 1)"
  by (cases op; cases "fst op") (auto simp: edit_of_opcode_def make_change_def)

lemma all_edits_length:
  "length (all_edits U mm a b ops) = length (filter (\<lambda>op. fst op \<noteq> Equal) ops)"
  by (induction ops) (simp_all add: all_edits_def edit_of_opcode_length)

lemma changes_loop_step:
  "changes_loop U mm a b (op # ops) acc =
     (case make_change a b op of
        None \<Rightarrow> changes_loop U mm a b ops acc
      | Some ch \<Rightarrow>
          (case predict_error_type U mm ch of
             Inl e \<Rightarrow> Inl e
           | Inr et \<Rightarrow>
               if 50 \<le> length (acc @ [attributed ch et]) then Inr (acc @ [attributed ch et])
               else changes_loop U mm a b ops (acc @ [attributed ch et])))"
proof (cases "fst op = Equal")
  case True
  then have "make_change a b op = None" by (cases op) (simp add: make_change_def)
  then show ?thesis using True by simp
next
  case False
  then show ?thesis by (simp add: Let_def split: option.splits sum.splits)
qed

lemma changes_loop_returns:
  "length acc < 50 \<Longrightarrow> changes_loop U mm a b ops acc = Inr edits \<Longrightarrow>
   edits = take 50 (acc @ all_edits U mm a b ops)"
proof (induction ops arbitrary: acc)
  case Nil
  then show ?case by (simp add: all_edits_def)
next
  case (Cons op ops)
  have c: "all_edits U mm a b (op # ops) = edit_of_opcode U mm a b op @ all_edits U mm a b ops"
    by (simp add: all_edits_def)
  show ?case
  proof (cases "make_change a b op")
    case None
    then have "edit_of_opcode U mm a b op = []" by (simp add: edit_of_opcode_def)
    moreover have "changes_loop U mm a b ops acc = Inr edits"
      using Cons.prems(2) None by (simp only: changes_loop_step option.case)
    ultimately show ?thesis using Cons.IH [OF Cons.prems(1)] by (simp add: c)
  next
    case (Some ch)
    show ?thesis
    proof (cases "predict_error_type U mm ch")
      case (Inl x)
      then show ?thesis using Cons.prems(2) Some by (simp only: changes_loop_step) simp
    next
      case (Inr et)
      then have et: "et = attributed_label U mm ch" by (rule predict_error_type_Inr)
      let ?e = "attributed ch (attributed_label U mm ch)"
      have e: "edit_of_opcode U mm a b op = [?e]" using Some by (simp add: edit_of_opcode_def)
      have step: "(if 50 \<le> length (acc @ [?e]) then Inr (acc @ [?e])
           else changes_loop U mm a b ops (acc @ [?e])) = Inr edits"
        using Cons.prems(2) Some Inr unfolding et by (simp only: changes_loop_step) simp
      show ?thesis
      proof (cases "50 \<le> length (acc @ [?e])")
        case True
        then have "length (acc @ [?e]) = 50" using Cons.prems(1) by simp
        then have "take 50 (acc @ [?e] @ all_edits U mm a b ops) = acc @ [?e]"
          by (metis append.assoc append_eq_conv_conj)
        moreover have "edits = acc @ [?e]" using step True by simp
        ultimately show ?thesis by (simp add: c e)
      next
        case False
        then have l: "length (acc @ [?e]) < 50" by simp
        have "changes_loop U mm a b ops (acc @ [?e]) = Inr edits" using step False by simp
        from Cons.IH [OF l this] show ?thesis by (simp add: c e)
      qed
    qed
  qed
qed

lemma changes_loop_total:
  "raises_only_Exception mm \<Longrightarrow> \<exists>edits. changes_loop U mm a b ops acc = Inr edits"
proof (induction ops arbitrary: acc)
  case Nil
  then show ?case by simp
next
  case (Cons op ops)
  show ?case
  proof (cases "make_change a b op")
    case None
    then show ?thesis using Cons by (simp only: changes_loop_step option.case)
  next
    case (Some ch)
    show ?thesis
      using Cons Some predict_error_type_total [OF Cons.prems, of U ch]
      by (simp only: changes_loop_step) simp
  qed
qed

lemma identify_changes_returns:
  "identify_changes U mm original_text corrected_text = Inr edits \<Longrightarrow>
   edits = take 50 (all_edits U mm (wp_tokenize U original_text) (wp_tokenize U corrected_text)
        (get_opcodes (wp_tokenize U original_text) (wp_tokenize U corrected_text)))"
  using changes_loop_returns [of "[]"] by (simp add: identify_changes_def Let_def)

lemma identify_changes_total:
  "raises_only_Exception mm \<Longrightarrow>
   \<exists>edits. identify_changes U mm original_text corrected_text = Inr edits"
  using changes_loop_total by (simp add: identify_changes_def Let_def)

subsection \<open>Spaces before commas and periods\<close>

fun contains :: "pystr \<Rightarrow> pystr \<Rightarrow> bool" where
  \<comment> \<open>\<^verbatim>\<open>sub in s\<close>\<close>
  "contains sub [] = (sub = [])"
| "contains sub (c # cs) = (take (length sub) (c # cs) = sub \<or> contains sub cs)"

fun adj :: "pychar \<Rightarrow> pychar \<Rightarrow> pystr \<Rightarrow> bool" where
  "adj x y (c # d # r) = ((c = x \<and> d = y) \<or> adj x y (d # r))"
| "adj x y [c] = False"
| "adj x y [] = False"

lemma contains_adj: "contains [x, y] s = adj x y s"
proof (induction s rule: adj.induct)
  case (1 x y c d r)
  then show ?case by auto
qed auto

lemma adj_Cons: "adj x y (c # s) = ((s \<noteq> [] \<and> c = x \<and> hd s = y) \<or> adj x y s)"
  by (cases s) auto

lemma adj_mem: "adj x y s \<Longrightarrow> x \<in> set s"
  by (induction s rule: adj.induct) auto

lemma adj_append:
  "adj x y (u @ v) = (adj x y u \<or> adj x y v \<or> (u \<noteq> [] \<and> v \<noteq> [] \<and> last u = x \<and> hd v = y))"
proof (induction u)
  case Nil
  then show ?case by simp
next
  case (Cons c u)
  show ?case
  proof (cases "u = []")
    case True
    then show ?thesis by (auto simp: adj_Cons)
  next
    case False
    then show ?thesis using Cons by (auto simp: adj_Cons)
  qed
qed

lemma replace_space_Nil: "replace [32, ch] [ch] [] = []"
  by (subst replace.simps) simp

lemma replace_space_Cons:
  "replace [32, ch] [ch] (c # cs) =
     (if c = 32 \<and> cs \<noteq> [] \<and> hd cs = ch then ch # replace [32, ch] [ch] (tl cs)
      else c # replace [32, ch] [ch] cs)"
  by (subst replace.simps, cases cs) auto

lemma replace_space_adj:
  assumes "ch \<noteq> 32"
  shows "\<not> adj 32 32 s \<Longrightarrow> adj x y (replace [32, ch] [ch] s) \<Longrightarrow>
         (adj x y s \<and> \<not> (x = 32 \<and> y = ch)) \<or> (y = ch \<and> x \<noteq> 32)"
proof (induction s rule: length_induct)
  case (1 s)
  let ?R = "replace [32, ch] [ch]"
  show ?case
  proof (cases s)
    case Nil
    then show ?thesis using "1.prems" by (simp add: replace_space_Nil)
  next
    case (Cons c cs)
    have hdR: "?R t \<noteq> [] \<and> hd (?R t) = (if hd t = 32 \<and> tl t \<noteq> [] \<and> hd (tl t) = ch then ch else hd t)"
      if "t \<noteq> []" for t
      using that by (cases t) (auto simp: replace_space_Cons)
    show ?thesis
    proof (cases "c = 32 \<and> cs \<noteq> [] \<and> hd cs = ch")
      case True
      then obtain r where cs: "cs = ch # r" by (cases cs) auto
      have R: "?R s = ch # ?R r" using True by (simp add: Cons cs replace_space_Cons)
      have nr: "\<not> adj 32 32 r" using "1.prems"(1) by (auto simp: Cons cs adj_Cons)
      have sub: "adj x y r \<Longrightarrow> adj x y s" by (simp add: Cons cs adj_Cons)
      from "1.prems"(2) consider
        (head) "?R r \<noteq> []" "x = ch" "hd (?R r) = y" | (tail) "adj x y (?R r)"
        by (auto simp: R adj_Cons)
      then show ?thesis
      proof cases
        case head
        then have rn: "r \<noteq> []" by (auto simp: replace_space_Nil)
        show ?thesis
        proof (cases "hd r = 32 \<and> tl r \<noteq> [] \<and> hd (tl r) = ch")
          case True
          then show ?thesis using head hdR [OF rn] assms by auto
        next
          case False
          then have "y = hd r" using head hdR [OF rn] by auto
          then have "adj x y s" using head(2) rn by (simp add: Cons cs adj_Cons)
          then show ?thesis using head(2) assms by auto
        qed
      next
        case tail
        have "length r < length s" by (simp add: Cons cs)
        with "1.IH" nr tail have "(adj x y r \<and> \<not> (x = 32 \<and> y = ch)) \<or> (y = ch \<and> x \<noteq> 32)"
          by blast
        then show ?thesis using sub by blast
      qed
    next
      case False
      have R: "?R s = c # ?R cs" using False by (auto simp: Cons replace_space_Cons)
      have nr: "\<not> adj 32 32 cs" using "1.prems"(1) by (auto simp: Cons adj_Cons)
      have sub: "adj x y cs \<Longrightarrow> adj x y s" by (simp add: Cons adj_Cons)
      from "1.prems"(2) consider
        (head) "?R cs \<noteq> []" "x = c" "hd (?R cs) = y" | (tail) "adj x y (?R cs)"
        by (auto simp: R adj_Cons)
      then show ?thesis
      proof cases
        case head
        then have cn: "cs \<noteq> []" by (auto simp: replace_space_Nil)
        show ?thesis
        proof (cases "hd cs = 32 \<and> tl cs \<noteq> [] \<and> hd (tl cs) = ch")
          case True
          then have y: "y = ch" using head hdR [OF cn] by auto
          have "c \<noteq> 32" using "1.prems"(1) True cn by (auto simp: Cons adj_Cons)
          then show ?thesis using y head(2) by simp
        next
          case nb: False
          then have y: "y = hd cs" using head hdR [OF cn] by auto
          then have "adj x y s" using head(2) cn by (simp add: Cons adj_Cons)
          moreover have "\<not> (x = 32 \<and> y = ch)" using False y head(2) cn by auto
          ultimately show ?thesis by simp
        qed
      next
        case tail
        have "length cs < length s" by (simp add: Cons)
        with "1.IH" nr tail have "(adj x y cs \<and> \<not> (x = 32 \<and> y = ch)) \<or> (y = ch \<and> x \<noteq> 32)"
          by blast
        then show ?thesis using sub by blast
      qed
    qed
  qed
qed

lemma join_hd: "t \<noteq> [] \<Longrightarrow> hd (join sep (t # ts)) = hd t"
  by (cases ts) auto

lemma join_Nil_iff: "\<forall>t \<in> set ts. t \<noteq> [] \<Longrightarrow> (join sep ts = []) = (ts = [])"
  by (induction sep ts rule: join.induct) auto

lemma join_no_double_space:
  "\<forall>t \<in> set ts. t \<noteq> [] \<and> 32 \<notin> set t \<Longrightarrow> \<not> adj 32 32 (join [32] ts)"
proof (induction "[32::nat]" ts rule: join.induct)
  case 1
  then show ?case by simp
next
  case (2 x)
  then show ?case using adj_mem by fastforce
next
  case (3 x y ys)
  have x: "x \<noteq> []" "32 \<notin> set x" and y: "y \<noteq> []" "32 \<notin> set y" using 3(2) by auto
  have "hd (join [32] (y # ys)) \<noteq> 32"
    using join_hd [OF y(1)] y by (metis hd_in_set)
  moreover have "\<not> adj 32 32 (join [32] (y # ys))" using 3 by simp
  moreover have "\<not> adj 32 32 x" using x adj_mem by blast
  moreover have "last x \<noteq> 32" using x by (metis last_in_set)
  ultimately show ?case by (simp add: adj_append adj_Cons)
qed

lemma segment_clean:
  assumes "\<forall>t \<in> set ts. t \<noteq> [] \<and> 32 \<notin> set t"
  shows "\<not> contains (str '' ,'') (segment ts i1 i2) \<and> \<not> contains (str '' .'') (segment ts i1 i2)"
proof -
  let ?s0 = "join [32] (slice ts i1 i2)"
  let ?s1 = "replace [32, 44] [44] ?s0"
  let ?s2 = "replace [32, 46] [46] ?s1"
  have "set (slice ts i1 i2) \<subseteq> set ts"
    unfolding slice_def by (meson set_drop_subset set_take_subset subset_trans)
  then have n0: "\<not> adj 32 32 ?s0" using assms by (intro join_no_double_space) blast
  have n1: "\<not> adj 32 32 ?s1" "\<not> adj 32 44 ?s1"
    using replace_space_adj [of 44 ?s0, OF _ n0] n0 by auto
  have n2: "\<not> adj 32 46 ?s2" "\<not> adj 32 44 ?s2"
    using replace_space_adj [of 46 ?s1, OF _ n1(1)] n1 by auto
  have "segment ts i1 i2 = ?s2" by (simp add: segment_def str_def)
  then show ?thesis using n2 by (simp add: str_def contains_adj)
qed

lemma findall_all:
  "\<forall>s t. m s = Some t \<longrightarrow> P t \<Longrightarrow> t \<in> set (findall m s) \<Longrightarrow> P t"
proof (induction m s rule: findall.induct)
  case (1 m s)
  show ?case
  proof (cases "s = []")
    case True
    then show ?thesis using "1.prems" by (simp add: findall.simps)
  next
    case False
    show ?thesis
    proof (cases "m s")
      case None
      then show ?thesis using 1 False by (simp add: findall.simps [of m s])
    next
      case (Some u)
      then have u: "P u" using "1.prems"(1) by blast
      show ?thesis
      proof (cases "u = []")
        case True
        then have "t = [] \<or> t \<in> set (findall m (tl s))"
          using "1.prems"(2) False Some by (simp add: findall.simps [of m s])
        then show ?thesis using u True "1.IH"(2) [OF False Some True "1.prems"(1)] by blast
      next
        case ne: False
        then have "t = u \<or> t \<in> set (findall m (drop (length u) s))"
          using "1.prems"(2) False Some by (simp add: findall.simps [of m s])
        then show ?thesis using u "1.IH"(3) [OF False Some ne "1.prems"(1)] by blast
      qed
    qed
  qed
qed

lemma alt_word_token:
  assumes "alt_word s = Some w"
  shows "w \<noteq> [] \<and> 32 \<notin> set w"
proof -
  have l: "32 \<notin> set (takeWhile is_ascii_letter v)" for v
    using set_takeWhileD [of 32 is_ascii_letter v] by (auto simp: is_ascii_letter_def)
  let ?w = "takeWhile is_ascii_letter s"
  have ne: "?w \<noteq> []" using assms by (auto simp: alt_word_def Let_def split: if_splits)
  show ?thesis
  proof (cases "dropWhile is_ascii_letter s")
    case Nil
    have "alt_word s = Some ?w"
      unfolding alt_word_def Let_def Nil using ne by simp
    then have "w = ?w" using assms by simp
    then show ?thesis using ne l by simp
  next
    case (Cons q r')
    have "alt_word s = (if q = 39 \<and> takeWhile is_ascii_letter r' \<noteq> []
        then Some (?w @ q # takeWhile is_ascii_letter r') else Some ?w)"
      unfolding alt_word_def Let_def Cons using ne by simp
    then have "w = ?w \<or> (q = 39 \<and> w = ?w @ q # takeWhile is_ascii_letter r')"
      using assms by (auto split: if_splits)
    then show ?thesis using ne l by auto
  qed
qed

lemma alt_digits_token:
  assumes "alt_digits U s = Some d"
  shows "d \<noteq> [] \<and> 32 \<notin> set d"
proof -
  have "32 \<notin> set (takeWhile (is_digit U) s)"
    using set_takeWhileD [of 32 "is_digit U" s] by (auto simp: is_digit_def)
  then show ?thesis using assms by (auto simp: alt_digits_def Let_def split: if_splits)
qed

lemma alt_symbol_token:
  assumes "alt_symbol U s = Some t"
  shows "t \<noteq> [] \<and> 32 \<notin> set t"
  using assms by (cases s) (auto simp: alt_symbol_def is_space_def split: if_splits)

lemma wp_tokenize_tokens:
  assumes "t \<in> set (wp_tokenize U s)"
  shows "t \<noteq> [] \<and> 32 \<notin> set t"
proof -
  have "u \<noteq> [] \<and> 32 \<notin> set u"
    if "orelse (alt_word s) (orelse (alt_digits U s) (alt_symbol U s)) = Some u" for s u
  proof (cases "alt_word s")
    case (Some w)
    then show ?thesis using that alt_word_token [of s w] by (simp add: orelse_def)
  next
    case None
    show ?thesis
    proof (cases "alt_digits U s")
      case (Some d)
      then show ?thesis using that None alt_digits_token [of U s d] by (simp add: orelse_def)
    next
      case n2: None
      then show ?thesis using that None alt_symbol_token [of U s u] by (simp add: orelse_def)
    qed
  qed
  then have "\<forall>s u. orelse (alt_word s) (orelse (alt_digits U s) (alt_symbol U s)) = Some u
      \<longrightarrow> u \<noteq> [] \<and> 32 \<notin> set u"
    by blast
  from findall_all [OF this] assms show ?thesis
    unfolding wp_tokenize_def by blast
qed

lemma make_change_clean:
  assumes "\<forall>t \<in> set a. t \<noteq> [] \<and> 32 \<notin> set t" "\<forall>t \<in> set b. t \<noteq> [] \<and> 32 \<notin> set t"
    and "make_change a b op = Some ch" and "ch_from ch = Some s \<or> ch_to ch = Some s"
  shows "\<not> contains (str '' ,'') s \<and> \<not> contains (str '' .'') s"
proof -
  obtain tag i1 i2 j1 j2 where op: "op = (tag, i1, i2, j1, j2)" by (cases op) auto
  have "s = segment a i1 i2 \<or> s = segment b j1 j2"
    using assms(3,4) by (cases tag) (auto simp: op make_change_def)
  then show ?thesis using segment_clean [OF assms(1)] segment_clean [OF assms(2)] by blast
qed


section \<open>Properties of the tokenizers and of the example builder\<close>

subsection \<open>Where the tokenizers agree\<close>

fun plain :: "unicode \<Rightarrow> pystr \<Rightarrow> bool" where
  "plain U [] = True"
| "plain U (c # s) =
     ((is_word U c \<longrightarrow> is_ascii_letter c \<or> is_digit U c)
      \<and> (case s of
            [] \<Rightarrow> True
          | d # r \<Rightarrow>
              \<not> (is_ascii_letter c \<and> is_digit U d) \<and> \<not> (is_digit U c \<and> is_ascii_letter d)
              \<and> (case r of
                    [] \<Rightarrow> True
                  | e # r' \<Rightarrow> \<not> (is_ascii_letter c \<and> d = 39 \<and> is_ascii_letter e)))
      \<and> plain U s)"

lemma plain_drop: "plain U s \<Longrightarrow> plain U (drop n s)"
proof (induction n arbitrary: s)
  case 0
  then show ?case by simp
next
  case (Suc n)
  then show ?case by (cases s) auto
qed

lemma letter_word: "is_ascii_letter c \<Longrightarrow> is_word U c"
  by (auto simp: is_ascii_letter_def is_word_def)

lemma digit_word: "is_digit U c \<Longrightarrow> is_word U c"
  by (auto simp: is_digit_def is_word_def)

lemma letter_not_digit: "is_ascii_letter c \<Longrightarrow> \<not> is_digit U c"
  by (auto simp: is_ascii_letter_def is_digit_def)

lemma takeWhile_letter_word:
  "plain U (c # r) \<Longrightarrow> is_ascii_letter c \<Longrightarrow>
   takeWhile is_ascii_letter (c # r) = takeWhile (is_word U) (c # r)"
proof (induction r arbitrary: c)
  case Nil
  then show ?case by (simp add: letter_word)
next
  case (Cons d r)
  have p: "plain U (d # r)" using Cons.prems(1) by simp
  show ?case
  proof (cases "is_ascii_letter d")
    case True
    from Cons.IH [OF p True] show ?thesis using Cons.prems(2) by (simp add: letter_word)
  next
    case False
    have "\<not> is_digit U d" using Cons.prems by auto
    moreover have "is_word U d \<longrightarrow> is_ascii_letter d \<or> is_digit U d" using p by simp
    ultimately have "\<not> is_word U d" using False by blast
    then show ?thesis using False Cons.prems(2) by (simp add: letter_word)
  qed
qed

lemma takeWhile_digit_word:
  "plain U (c # r) \<Longrightarrow> is_digit U c \<Longrightarrow>
   takeWhile (is_digit U) (c # r) = takeWhile (is_word U) (c # r)"
proof (induction r arbitrary: c)
  case Nil
  then show ?case by (simp add: digit_word)
next
  case (Cons d r)
  have p: "plain U (d # r)" using Cons.prems(1) by simp
  show ?case
  proof (cases "is_digit U d")
    case True
    from Cons.IH [OF p True] show ?thesis using Cons.prems(2) by (simp add: digit_word)
  next
    case False
    have "\<not> is_ascii_letter d" using Cons.prems by auto
    moreover have "is_word U d \<longrightarrow> is_ascii_letter d \<or> is_digit U d" using p by simp
    ultimately have "\<not> is_word U d" using False by blast
    then show ?thesis using False Cons.prems(2) by (simp add: digit_word)
  qed
qed

lemma no_contraction:
  "plain U (c # r) \<Longrightarrow> is_ascii_letter c \<Longrightarrow> dropWhile is_ascii_letter (c # r) = q # r' \<Longrightarrow>
   \<not> (q = 39 \<and> takeWhile is_ascii_letter r' \<noteq> [])"
proof (induction r arbitrary: c)
  case Nil
  then show ?case by simp
next
  case (Cons d r)
  have p: "plain U (d # r)" using Cons.prems(1) by simp
  show ?case
  proof (cases "is_ascii_letter d")
    case True
    have "dropWhile is_ascii_letter (d # r) = q # r'" using Cons.prems(2,3) by simp
    from Cons.IH [OF p True this] show ?thesis .
  next
    case False
    then have q: "q = d" "r' = r" using Cons.prems(2,3) by auto
    show ?thesis
    proof
      assume a: "q = 39 \<and> takeWhile is_ascii_letter r' \<noteq> []"
      then obtain e r'' where r: "r = e # r''" and e: "is_ascii_letter e"
        unfolding q by (cases r) (auto split: if_splits)
      then show False using Cons.prems(1,2) a q by simp
    qed
  qed
qed

lemma alt_word_plain:
  assumes "plain U (c # r)" "is_ascii_letter c"
  shows "alt_word (c # r) = Some (takeWhile is_ascii_letter (c # r))"
proof -
  have ne: "takeWhile is_ascii_letter (c # r) \<noteq> []" using assms(2) by simp
  show ?thesis
  proof (cases "dropWhile is_ascii_letter (c # r)")
    case Nil
    show ?thesis unfolding alt_word_def Let_def Nil using ne by simp
  next
    case (Cons q r')
    from no_contraction [OF assms Cons] show ?thesis
      unfolding alt_word_def Let_def Cons using ne by auto
  qed
qed

lemma matchers_agree:
  assumes "plain U s"
  shows "orelse (alt_word s) (orelse (alt_digits U s) (alt_symbol U s))
         = orelse (alt_w U s) (alt_symbol U s)"
proof (cases s)
  case Nil
  then show ?thesis
    by (simp add: orelse_def alt_word_def alt_digits_def alt_symbol_def alt_w_def)
next
  case (Cons c r)
  have p: "plain U (c # r)" using assms Cons by simp
  show ?thesis
  proof (cases "is_ascii_letter c")
    case True
    have "alt_w U s = Some (takeWhile is_ascii_letter (c # r))"
      using takeWhile_letter_word [OF p True] True
      by (simp add: alt_w_def Cons letter_word)
    then show ?thesis using alt_word_plain [OF p True] by (simp add: orelse_def Cons)
  next
    case nl: False
    then have w: "alt_word s = None" by (simp add: alt_word_def Cons)
    show ?thesis
    proof (cases "is_digit U c")
      case True
      have "alt_w U s = Some (takeWhile (is_digit U) (c # r))"
        using takeWhile_digit_word [OF p True] True
        by (simp add: alt_w_def Cons digit_word)
      moreover have "alt_digits U s = Some (takeWhile (is_digit U) (c # r))"
        using True by (simp add: alt_digits_def Cons)
      ultimately show ?thesis using w by (simp add: orelse_def)
    next
      case False
      then have "\<not> is_word U c" using nl p by auto
      then have "alt_w U s = None" by (simp add: alt_w_def Cons)
      moreover have "alt_digits U s = None" using False by (simp add: alt_digits_def Cons)
      ultimately show ?thesis using w by (simp add: orelse_def)
    qed
  qed
qed

lemma findall_cong_plain:
  assumes "\<And>s. plain U s \<Longrightarrow> m1 s = m2 s"
  shows "plain U s \<Longrightarrow> findall m1 s = findall m2 s"
proof (induction s rule: length_induct)
  case (1 s)
  show ?case
  proof (cases "s = []")
    case True
    then show ?thesis by (simp add: findall.simps)
  next
    case False
    have m: "m1 s = m2 s" using assms "1.prems" by simp
    have t: "findall m1 (tl s) = findall m2 (tl s)"
      using "1.IH" False plain_drop [OF "1.prems", of 1] by (simp add: drop_Suc)
    have d: "findall m1 (drop n s) = findall m2 (drop n s)" if "0 < n" for n
      using "1.IH" False that plain_drop [OF "1.prems", of n] by simp
    show ?thesis
      by (subst findall.simps [of m1], subst findall.simps [of m2])
        (auto simp: m t d split: option.splits)
  qed
qed


subsection \<open>The examples that build\_error\_type\_examples keeps\<close>

definition corr_code :: "unicode \<Rightarrow> correction \<Rightarrow> pystr" where
  "corr_code U corr = strip U (py_or (corr_error_type corr) (str ''UNKNOWN''))"

definition corr_inc :: "unicode \<Rightarrow> correction \<Rightarrow> pystr" where
  "corr_inc U corr = strip U (py_or (incorrect corr) [])"

definition corr_cor :: "unicode \<Rightarrow> correction \<Rightarrow> pystr" where
  "corr_cor U corr = strip U (py_or (correct corr) [])"

definition kept :: "unicode \<Rightarrow> int \<Rightarrow> int \<Rightarrow> correction \<Rightarrow> bool" where
  "kept U min_len max_len corr =
     (\<not> (corr_inc U corr = [] \<and> corr_cor U corr = [])
      \<and> \<not> (int (length (wp_tokenize_tagger U (corr_inc U corr))) < min_len
            \<and> int (length (wp_tokenize_tagger U (corr_cor U corr))) < min_len)
      \<and> int (length (wp_tokenize_tagger U (corr_inc U corr))) \<le> max_len
      \<and> int (length (wp_tokenize_tagger U (corr_cor U corr))) \<le> max_len)"

definition example_text :: "unicode \<Rightarrow> correction \<Rightarrow> pystr" where
  "example_text U corr = str ''INC: '' @ corr_inc U corr @ str '' || COR: '' @ corr_cor U corr"

definition example_label :: "unicode \<Rightarrow> correction \<Rightarrow> pystr" where
  "example_label U corr = friendly_of (corr_code U corr)"

definition all_corrections :: "item list \<Rightarrow> correction list" where
  "all_corrections data =
     concat (map (\<lambda>it. case corrections it of None \<Rightarrow> [] | Some cs \<Rightarrow> cs) data)"

lemma corr_loop_eq:
  "corr_loop U mn mx cs (X, y) =
     (X @ map (example_text U) (filter (kept U mn mx) cs),
      y @ map (example_label U) (filter (kept U mn mx) cs))"
proof (induction cs arbitrary: X y)
  case Nil
  then show ?case by simp
next
  case (Cons corr cs)
  show ?case
  proof (cases "kept U mn mx corr")
    case True
    then show ?thesis
      using Cons [of "X @ [example_text U corr]" "y @ [example_label U corr]"]
      by (auto simp: kept_def corr_inc_def corr_cor_def corr_code_def example_text_def
          example_label_def Let_def)
  next
    case False
    then show ?thesis
      using Cons [of X y]
      by (auto simp: kept_def corr_inc_def corr_cor_def Let_def)
  qed
qed

lemma item_loop_eq:
  "item_loop U mn mx data (X, y) =
     (X @ map (example_text U) (filter (kept U mn mx) (all_corrections data)),
      y @ map (example_label U) (filter (kept U mn mx) (all_corrections data)))"
proof (induction data arbitrary: X y)
  case Nil
  then show ?case by (simp add: all_corrections_def)
next
  case (Cons it data)
  show ?case by (simp add: corr_loop_eq Cons all_corrections_def)
qed

lemma friendly_of_range:
  "friendly_of code \<in> snd ` set FCE_TO_FRIENDLY \<union> {str ''other''}"
proof (cases "map_of FCE_TO_FRIENDLY code")
  case None
  then show ?thesis by (simp add: friendly_of_def)
next
  case (Some f)
  then have "(code, f) \<in> set FCE_TO_FRIENDLY" by (rule map_of_SomeD)
  then have "f \<in> snd ` set FCE_TO_FRIENDLY" by force
  then show ?thesis using Some by (simp add: friendly_of_def)
qed

lemma friendly_labels_known:
  "snd ` set FCE_TO_FRIENDLY \<union> {str ''other''} \<subseteq> fst ` set MICRO_FEEDBACK"
  by (simp add: FCE_TO_FRIENDLY_def MICRO_FEEDBACK_def)


section \<open>The claims\<close>

subsection \<open>Score and error flag\<close>

lemma score_changes_result:
  "score_changes U mm s c p = Inr r \<Longrightarrow>
     num_errors r = int (length (changes r))
     \<and> score r = max 0 (10 - int (length (changes r)))
     \<and> has_errors r = (0 < length (changes r))"
  by (auto simp: score_changes_def Let_def split: sum.splits)

text \<open>
  Claim C3. Every result of \<^verbatim>\<open>correct_text\<close> has \<open>score = max(0, 10 - edit_count)\<close> and
  \<open>has_errors = (edit_count > 0)\<close>, where \<open>edit_count\<close> is the length of its list of
  changes; so the score lies between 0 and 10 and equals \<open>10 - min(edit_count, 10)\<close>.
\<close>

theorem score_from_edit_count:
  "correct_text U mm student_input p n = Inr r \<Longrightarrow>
     score r = max 0 (10 - int (length (changes r)))
     \<and> has_errors r = (0 < length (changes r))
     \<and> 0 \<le> score r \<and> score r \<le> 10
     \<and> score r = 10 - min (int (length (changes r))) 10"
proof -
  assume "correct_text U mm student_input p n = Inr r"
  then obtain c where "score_changes U mm student_input c p = Inr r"
    by (auto simp: correct_text_def split: if_splits sum.splits)
  from score_changes_result [OF this] show ?thesis by auto
qed

theorem score_from_edit_count_witness:
  "\<exists>r. correct_text ascii_db
      \<lparr>loaded = True, generate = (\<lambda>s n. Inr (str ''I saw a dog '')),
       error_clf_loaded = False, error_clf = None\<rparr>
      (str ''I saw dog'') [] 256 = Inr r \<and> score r = 9 \<and> has_errors r"
proof -
  let ?mm = "\<lparr>loaded = True, generate = (\<lambda>s n. Inr (str ''I saw a dog '')),
       error_clf_loaded = False, error_clf = None\<rparr> :: model_manager"
  let ?res = "correct_text ascii_db ?mm (str ''I saw dog'') [] 256"
  have "map_sum (\<lambda>e. ()) (\<lambda>r. length (changes r)) ?res = Inr 1"
    by code_simp
  then obtain r where r: "?res = Inr r" and l: "length (changes r) = 1"
    by (cases ?res) auto
  from score_from_edit_count [OF r] l have "score r = 9 \<and> has_errors r" by simp
  with r show ?thesis by blast
qed

subsection \<open>The fallback heuristic\<close>

text \<open>
  Claim C5, as stated, fails: both sides of an edit are trimmed and lower-cased before any
  rule is tried, so the plural rule is not a comparison of the texts as they are. The edit
  that replaces \<open>Cat\<close> by \<open>cats\<close> is classified \<open>agreement/plural\<close> although
  \<open>cats\<close> is none of \<open>Cats\<close>, \<open>Cates\<close> and \<open>Caies\<close>.
\<close>

theorem heuristic_plural_counterexample:
  "predict_error_type_heuristic ascii_db
     \<lparr>ch_type = Replaced, ch_from = Some (str ''Cat''), ch_to = Some (str ''cats'')\<rparr>
     = str ''agreement/plural''
   \<and> str ''Cat'' @ str ''s'' \<noteq> str ''cats''
   \<and> str ''Cat'' @ str ''es'' \<noteq> str ''cats''
   \<and> butlast (str ''Cat'') @ str ''ies'' \<noteq> str ''cats''"
  by code_simp

text \<open>
  Claim C5, amended. The heuristic trims and lower-cases both sides of an edit (a missing
  side counts as empty) before any rule is tried, for the article check and the plural
  check alike. It answers \<open>articles/determiners\<close> exactly for an added edit whose
  inserted text, trimmed and lower-cased, is one of \<open>a\<close>, \<open>an\<close>, \<open>the\<close>. It answers
  \<open>agreement/plural\<close> exactly for a replaced edit whose two sides, trimmed and
  lower-cased, are both non-empty and such that the corrected side is the original side
  followed by \<open>s\<close> or \<open>es\<close>, or the original side ends in \<open>y\<close> and the corrected side
  is the original without that \<open>y\<close> followed by \<open>ies\<close>.
\<close>

theorem heuristic_case_folding:
  "(predict_error_type_heuristic U ch = str ''articles/determiners'' \<longleftrightarrow>
      ch_type ch = Added \<and> lower U (strip U (py_or (ch_to ch) [])) \<in> ARTICLES)
   \<and> (predict_error_type_heuristic U ch = str ''agreement/plural'' \<longleftrightarrow>
      ch_type ch = Replaced
      \<and> lower U (strip U (py_or (ch_from ch) [])) \<noteq> []
      \<and> lower U (strip U (py_or (ch_to ch) [])) \<noteq> []
      \<and> (lower U (strip U (py_or (ch_from ch) [])) @ str ''s''
             = lower U (strip U (py_or (ch_to ch) []))
          \<or> lower U (strip U (py_or (ch_from ch) [])) @ str ''es''
             = lower U (strip U (py_or (ch_to ch) []))
          \<or> (endswith (lower U (strip U (py_or (ch_from ch) []))) (str ''y'')
              \<and> butlast (lower U (strip U (py_or (ch_from ch) []))) @ str ''ies''
                 = lower U (strip U (py_or (ch_to ch) [])))))"
proof -
  have e: "lower U (strip U []) = []" by (simp add: lower_def strip_def)
  have f: "(if r = None \<or> r = Some [] then [] else lower U (strip U (py_or r [])))
      = lower U (strip U (py_or r []))" for r
    by (cases r) (auto simp: py_or_def e)
  have d: "str ''articles/determiners'' \<noteq> str ''agreement/plural''"
    "str ''missing word'' \<noteq> str ''agreement/plural''"
    "str ''unnecessary word'' \<noteq> str ''agreement/plural''"
    "str ''other'' \<noteq> str ''agreement/plural''"
    "str ''agreement/plural'' \<noteq> str ''articles/determiners''"
    "str ''missing word'' \<noteq> str ''articles/determiners''"
    "str ''unnecessary word'' \<noteq> str ''articles/determiners''"
    "str ''other'' \<noteq> str ''articles/determiners''"
    by (simp_all add: str_def)
  show ?thesis
    unfolding predict_error_type_heuristic_def Let_def f
    by (cases "ch_type ch") (simp_all add: d)
qed

theorem heuristic_case_folding_witness:
  "predict_error_type_heuristic ascii_db
     \<lparr>ch_type = Added, ch_from = None, ch_to = Some (str '' The '')\<rparr>
     = str ''articles/determiners''
   \<and> predict_error_type_heuristic ascii_db
     \<lparr>ch_type = Replaced, ch_from = Some (str ''City''), ch_to = Some (str ''CITIES'')\<rparr>
     = str ''agreement/plural''"
proof -
  let ?c1 = "\<lparr>ch_type = Added, ch_from = None, ch_to = Some (str '' The '')\<rparr>"
  let ?c2 = "\<lparr>ch_type = Replaced, ch_from = Some (str ''City''), ch_to = Some (str ''CITIES'')\<rparr>"
  have a: "lower ascii_db (strip ascii_db (py_or (ch_to ?c1) [])) \<in> ARTICLES"
    by code_simp
  have f: "lower ascii_db (strip ascii_db (py_or (ch_from ?c2) [])) = str ''city''"
    by code_simp
  have t: "lower ascii_db (strip ascii_db (py_or (ch_to ?c2) [])) = str ''cities''"
    by code_simp
  have p: "str ''city'' \<noteq> [] \<and> str ''cities'' \<noteq> []
      \<and> endswith (str ''city'') (str ''y'') \<and> butlast (str ''city'') @ str ''ies'' = str ''cities''"
    by code_simp
  from heuristic_case_folding [of ascii_db ?c1] a
  have "predict_error_type_heuristic ascii_db ?c1 = str ''articles/determiners''"
    by simp
  moreover from heuristic_case_folding [of ascii_db ?c2] p
  have "predict_error_type_heuristic ascii_db ?c2 = str ''agreement/plural''"
    unfolding f t by simp
  ultimately show ?thesis by simp
qed

subsection \<open>The classifier and its fallback\<close>

text \<open>
  Claim C7, as stated, fails: \<^verbatim>\<open>except Exception\<close> catches what derives from
  \<^verbatim>\<open>Exception\<close> and nothing else. When the classifier's \<^verbatim>\<open>predict\<close> raises
  \<^verbatim>\<open>KeyboardInterrupt\<close>, the exception leaves \<^verbatim>\<open>_predict_error_type\<close>.
\<close>

theorem classifier_exception_counterexample:
  "predict_error_type ascii_db
     \<lparr>loaded = True, generate = (\<lambda>s n. Inr s), error_clf_loaded = True,
      error_clf = Some (\<lambda>x. Inl (BaseExceptionOnly (str ''KeyboardInterrupt'')))\<rparr>
     \<lparr>ch_type = Deleted, ch_from = Some (str ''very''), ch_to = None\<rparr>
   = Inl (BaseExceptionOnly (str ''KeyboardInterrupt''))"
  by (simp add: predict_error_type_def)

text \<open>
  Claim C7, amended. When the loaded classifier's \<^verbatim>\<open>predict\<close> raises an exception that
  derives from \<^verbatim>\<open>Exception\<close>, the exception is caught and the label is the heuristic's;
  an exception that does not derive from \<^verbatim>\<open>Exception\<close> propagates; when
  \<^verbatim>\<open>predict\<close> returns, its label is used as it is; when the classifier is absent or not
  loaded, the label is the heuristic's and nothing is raised.
\<close>

theorem classifier_failure_falls_back:
  "(\<forall>predict e. error_clf_loaded mm \<and> error_clf mm = Some predict
        \<and> predict (normalize_pair_for_clf U (ch_from ch) (ch_to ch)) = Inl e \<and> is_Exception e
      \<longrightarrow> predict_error_type U mm ch = Inr (predict_error_type_heuristic U ch)) \<and>
   (\<forall>predict e. error_clf_loaded mm \<and> error_clf mm = Some predict
        \<and> predict (normalize_pair_for_clf U (ch_from ch) (ch_to ch)) = Inl e \<and> \<not> is_Exception e
      \<longrightarrow> predict_error_type U mm ch = Inl e) \<and>
   (\<forall>predict label. error_clf_loaded mm \<and> error_clf mm = Some predict
        \<and> predict (normalize_pair_for_clf U (ch_from ch) (ch_to ch)) = Inr label
      \<longrightarrow> predict_error_type U mm ch = Inr label) \<and>
   (\<not> error_clf_loaded mm \<or> error_clf mm = None
      \<longrightarrow> predict_error_type U mm ch = Inr (predict_error_type_heuristic U ch))"
  by (auto simp: predict_error_type_def split: option.splits sum.splits)

theorem classifier_failure_falls_back_witness:
  "predict_error_type ascii_db
     \<lparr>loaded = True, generate = (\<lambda>s n. Inr s), error_clf_loaded = True,
      error_clf = Some (\<lambda>x. Inl (ExceptionSubclass (str ''ValueError'')))\<rparr>
     \<lparr>ch_type = Deleted, ch_from = Some (str ''very''), ch_to = None\<rparr>
   = Inr (str ''unnecessary word'') \<and>
   predict_error_type ascii_db
     \<lparr>loaded = True, generate = (\<lambda>s n. Inr s), error_clf_loaded = False, error_clf = None\<rparr>
     \<lparr>ch_type = Added, ch_from = None, ch_to = Some (str ''The'')\<rparr>
   = Inr (str ''articles/determiners'') \<and>
   predict_error_type ascii_db
     \<lparr>loaded = True, generate = (\<lambda>s n. Inr s), error_clf_loaded = True,
      error_clf = Some (\<lambda>x. Inr (str ''spelling''))\<rparr>
     \<lparr>ch_type = Replaced, ch_from = Some (str ''teh''), ch_to = Some (str ''the'')\<rparr>
   = Inr (str ''spelling'')"
proof -
  let ?mm1 = "\<lparr>loaded = True, generate = (\<lambda>s n. Inr s), error_clf_loaded = True,
      error_clf = Some (\<lambda>x. Inl (ExceptionSubclass (str ''ValueError'')))\<rparr>"
  let ?c1 = "\<lparr>ch_type = Deleted, ch_from = Some (str ''very''), ch_to = None\<rparr>"
  let ?mm2 = "\<lparr>loaded = True, generate = (\<lambda>s n. Inr s), error_clf_loaded = False,
      error_clf = None\<rparr> :: model_manager"
  let ?c2 = "\<lparr>ch_type = Added, ch_from = None, ch_to = Some (str ''The'')\<rparr>"
  let ?mm3 = "\<lparr>loaded = True, generate = (\<lambda>s n. Inr s), error_clf_loaded = True,
      error_clf = Some (\<lambda>x. Inr (str ''spelling''))\<rparr>"
  let ?c3 = "\<lparr>ch_type = Replaced, ch_from = Some (str ''teh''), ch_to = Some (str ''the'')\<rparr>"
  have h1: "predict_error_type_heuristic ascii_db ?c1 = str ''unnecessary word''"
    by code_simp
  have h2: "predict_error_type_heuristic ascii_db ?c2 = str ''articles/determiners''"
    by code_simp
  from classifier_failure_falls_back [of ?mm1 ascii_db ?c1]
  have "predict_error_type ascii_db ?mm1 ?c1 = Inr (predict_error_type_heuristic ascii_db ?c1)"
    by simp
  moreover from classifier_failure_falls_back [of ?mm2 ascii_db ?c2]
  have "predict_error_type ascii_db ?mm2 ?c2 = Inr (predict_error_type_heuristic ascii_db ?c2)"
    by simp
  moreover from classifier_failure_falls_back [of ?mm3 ascii_db ?c3]
  have "predict_error_type ascii_db ?mm3 ?c3 = Inr (str ''spelling'')"
    by simp
  ultimately show ?thesis by (simp only: h1 h2)
qed

subsection \<open>The tokenizers\<close>

text \<open>
  Claim C6 says that every non-whitespace character that is neither a letter nor a digit
  is a token of its own. The server's pattern has no alternative for a character of
  \<^verbatim>\<open>\w\<close> that is neither an ASCII letter nor a decimal digit: the underscore of
  \<open>a_b\<close> yields no token at all, where the pattern of the training scripts keeps it.
\<close>

theorem tokenizer_drops_underscore:
  "wp_tokenize U (str ''a_b'') = [str ''a'', str ''b'']
   \<and> wp_tokenize_tagger U (str ''a_b'') = [str ''a_b'']"
  by (simp add: wp_tokenize_def wp_tokenize_tagger_def findall.simps str_def orelse_def
      alt_word_def alt_digits_def alt_symbol_def alt_w_def is_ascii_letter_def is_digit_def
      is_word_def is_space_def)

text \<open>
  Claim C10, as stated, fails: on \<open>don't\<close> the server yields one token and the
  training script three.
\<close>

theorem tokenizers_differ_counterexample:
  "wp_tokenize ascii_db (str ''don't'') \<noteq> wp_tokenize_tagger ascii_db (str ''don't'')"
  by code_simp

text \<open>
  Claim C10, amended. The tokenizers of the two training scripts and of the test script
  compute the same tokens on every text. The server's tokenizer computes these tokens too
  on every text in which each character of \<^verbatim>\<open>\w\<close> is an ASCII letter or a decimal digit,
  no letter stands next to a digit, and no apostrophe stands between two letters.
\<close>

theorem tokenizers_agree_on_plain_text:
  "(plain U s \<longrightarrow> wp_tokenize U s = wp_tokenize_tagger U s)
   \<and> wp_tokenize_tagger U s = wp_tokenize_corrector U s
   \<and> wp_tokenize_tagger U s = wp_tokenize_test U s"
proof -
  have "plain U s \<Longrightarrow> wp_tokenize U s = wp_tokenize_tagger U s"
    unfolding wp_tokenize_def wp_tokenize_tagger_def
    by (rule findall_cong_plain [where U = U]) (rule matchers_agree)
  then show ?thesis
    by (simp add: wp_tokenize_tagger_def wp_tokenize_corrector_def wp_tokenize_test_def)
qed

theorem tokenizers_agree_on_plain_text_witness:
  "wp_tokenize ascii_db (str ''I saw 2 dogs, too.'')
     = wp_tokenize_tagger ascii_db (str ''I saw 2 dogs, too.'')
   \<and> wp_tokenize ascii_db (str ''I saw 2 dogs, too.'')
     = [str ''I'', str ''saw'', str ''2'', str ''dogs'', str '','', str ''too'', str ''.'']"
proof -
  have p: "plain ascii_db (str ''I saw 2 dogs, too.'')"
    by code_simp
  have v: "wp_tokenize ascii_db (str ''I saw 2 dogs, too.'')
     = [str ''I'', str ''saw'', str ''2'', str ''dogs'', str '','', str ''too'', str ''.'']"
    by code_simp
  from tokenizers_agree_on_plain_text [of ascii_db "str ''I saw 2 dogs, too.''"] p v
  show ?thesis by simp
qed

subsection \<open>The alignment\<close>

text \<open>
  Claim C1. For every pair of texts, the opcodes of the aligner in \<^verbatim>\<open>identify_changes\<close>
  partition the token indices of both sides: the first opcode starts at 0 on both sides,
  each opcode starts where the one before it ends, no range runs backwards, and the last
  opcode ends at the two lengths. Read in order, the original ranges list
  \<open>0, \<dots>, len(o_tokens) - 1\<close> and the corrected ranges list
  \<open>0, \<dots>, len(c_tokens) - 1\<close>, each index once.
\<close>

theorem opcodes_partition_tokens:
  "partitions 0 0 (get_opcodes (wp_tokenize U original_text) (wp_tokenize U corrected_text))
     (length (wp_tokenize U original_text)) (length (wp_tokenize U corrected_text))
   \<and> concat (map original_range
        (get_opcodes (wp_tokenize U original_text) (wp_tokenize U corrected_text)))
      = [0..<length (wp_tokenize U original_text)]
   \<and> concat (map corrected_range
        (get_opcodes (wp_tokenize U original_text) (wp_tokenize U corrected_text)))
      = [0..<length (wp_tokenize U corrected_text)]"
proof -
  let ?a = "wp_tokenize U original_text" and ?b = "wp_tokenize U corrected_text"
  obtain blocks where g: "get_matching_blocks ?a ?b = blocks @ [(length ?a, length ?b, 0)]"
    by (simp add: get_matching_blocks_def)
  have "partitions 0 0 (get_opcodes ?a ?b) (length ?a) (length ?b)"
    using opcodes_loop_partitions [of 0 0 blocks "length ?a" "length ?b"]
      get_matching_blocks_mono [of ?a ?b] by (simp add: get_opcodes_def g)
  then show ?thesis using partitions_ranges by blast
qed

text \<open>
  Claim C2. For every text \<open>t\<close>, also the empty one, comparing \<open>t\<close> with itself yields
  no edit, so the result has an edit count of zero, score 10 and no errors.
\<close>

theorem no_edits_on_identical_texts:
  "identify_changes U mm t t = Inr []
   \<and> score_changes U mm t t p =
       Inr \<lparr>original = t, corrected = t, prompt = p, num_errors = 0, score = 10,
            changes = [], has_errors = False\<rparr>"
proof -
  have "identify_changes U mm t t = Inr []"
    unfolding identify_changes_def Let_def get_opcodes_same
    by (rule changes_loop_equal) simp
  then show ?thesis by (simp add: score_changes_def)
qed

subsection \<open>The edit extractor\<close>

text \<open>
  Claim C4. Whenever \<^verbatim>\<open>identify_changes\<close> returns, it returns the edits of the first 50
  opcodes that are not \<^verbatim>\<open>equal\<close>, in their order: the number of edits is the smaller of
  50 and the number of such opcodes, so it is at most 50, and exactly 50 when the
  alignment has more than 50 of them. It returns for every pair of texts, provided that
  whatever the classifier raises derives from \<^verbatim>\<open>Exception\<close> (as it does when there is no
  classifier).
\<close>

theorem at_most_fifty_edits:
  "(identify_changes U mm original_text corrected_text = Inr edits \<longrightarrow>
      edits = take 50 (all_edits U mm (wp_tokenize U original_text)
         (wp_tokenize U corrected_text)
         (get_opcodes (wp_tokenize U original_text) (wp_tokenize U corrected_text)))
      \<and> length edits = min 50 (length (filter (\<lambda>op. fst op \<noteq> Equal)
         (get_opcodes (wp_tokenize U original_text) (wp_tokenize U corrected_text))))
      \<and> length edits \<le> 50)
   \<and> (raises_only_Exception mm \<longrightarrow>
        (\<exists>es. identify_changes U mm original_text corrected_text = Inr es))"
proof -
  have "length (take 50 (all_edits U mm a b ops))
      = min 50 (length (filter (\<lambda>op. fst op \<noteq> Equal) ops))" for a b ops
    by (simp add: all_edits_length min.commute)
  then show ?thesis
    using identify_changes_returns [of U mm original_text corrected_text edits]
      identify_changes_total [of mm U original_text corrected_text]
    by auto
qed

theorem at_most_fifty_edits_witness:
  "\<exists>edits. identify_changes ascii_db
       \<lparr>loaded = True, generate = (\<lambda>s n. Inr s), error_clf_loaded = False, error_clf = None\<rparr>
       (str ''I saw dog'') (str ''I saw a dog'') = Inr edits
     \<and> length edits = 1 \<and> length edits \<le> 50"
proof -
  let ?mm = "\<lparr>loaded = True, generate = (\<lambda>s n. Inr s), error_clf_loaded = False,
     error_clf = None\<rparr> :: model_manager"
  have r: "raises_only_Exception ?mm" by (simp add: raises_only_Exception_def)
  have n: "length (filter (\<lambda>op. fst op \<noteq> Equal)
      (get_opcodes (wp_tokenize ascii_db (str ''I saw dog''))
         (wp_tokenize ascii_db (str ''I saw a dog'')))) = 1"
    by code_simp
  from at_most_fifty_edits [of ascii_db ?mm "str ''I saw dog''" "str ''I saw a dog''"] r
  obtain es where es: "identify_changes ascii_db ?mm (str ''I saw dog'') (str ''I saw a dog'') = Inr es"
    by blast
  have "length es = min 50 (length (filter (\<lambda>op. fst op \<noteq> Equal)
      (get_opcodes (wp_tokenize ascii_db (str ''I saw dog''))
         (wp_tokenize ascii_db (str ''I saw a dog'')))))"
    using at_most_fifty_edits [of ascii_db ?mm "str ''I saw dog''" "str ''I saw a dog''" es] es
    by blast
  then have "length es = 1 \<and> length es \<le> 50" unfolding n by simp
  with es show ?thesis by blast
qed

text \<open>
  Claim C8. In no edit that \<^verbatim>\<open>identify_changes\<close> returns does the \<^verbatim>\<open>from\<close> text or
  the \<^verbatim>\<open>to\<close> text contain a space immediately before a comma or immediately before a
  period.
\<close>

theorem no_space_before_comma_or_period:
  assumes "identify_changes U mm original_text corrected_text = Inr edits"
    and "e \<in> set edits" and "ch_from e = Some s \<or> ch_to e = Some s"
  shows "\<not> contains (str '' ,'') s \<and> \<not> contains (str '' .'') s"
proof -
  let ?a = "wp_tokenize U original_text" and ?b = "wp_tokenize U corrected_text"
  have "e \<in> set (all_edits U mm ?a ?b (get_opcodes ?a ?b))"
    using identify_changes_returns [OF assms(1)] assms(2) by (auto dest: in_set_takeD)
  then obtain op where "e \<in> set (edit_of_opcode U mm ?a ?b op)"
    by (auto simp: all_edits_def)
  then obtain ch where "make_change ?a ?b op = Some ch"
    and e: "e = attributed ch (attributed_label U mm ch)"
    by (cases "make_change ?a ?b op") (auto simp: edit_of_opcode_def)
  moreover have "ch_from ch = Some s \<or> ch_to ch = Some s"
    using assms(3) by (simp add: e attributed_def)
  moreover have "\<forall>t \<in> set ?a. t \<noteq> [] \<and> 32 \<notin> set t" "\<forall>t \<in> set ?b. t \<noteq> [] \<and> 32 \<notin> set t"
    using wp_tokenize_tokens by blast+
  ultimately show ?thesis
    by (intro make_change_clean [of ?a ?b op ch s])
qed

theorem no_space_before_comma_or_period_witness:
  "\<exists>edits e. identify_changes ascii_db
       \<lparr>loaded = True, generate = (\<lambda>s n. Inr s), error_clf_loaded = False, error_clf = None\<rparr>
       (str ''a b'') (str ''c , d .'') = Inr edits
     \<and> e \<in> set edits \<and> ch_to e = Some (str ''c, d.'')
     \<and> \<not> contains (str '' ,'') (str ''c, d.'') \<and> \<not> contains (str '' .'') (str ''c, d.'')"
proof -
  let ?mm = "\<lparr>loaded = True, generate = (\<lambda>s n. Inr s), error_clf_loaded = False,
     error_clf = None\<rparr> :: model_manager"
  let ?res = "identify_changes ascii_db ?mm (str ''a b'') (str ''c , d .'')"
  have "map_sum (\<lambda>e. ()) (map ch_to) ?res = Inr [Some (str ''c, d.'')]"
    by code_simp
  then obtain edits where r: "?res = Inr edits" and m: "map ch_to edits = [Some (str ''c, d.'')]"
    by (cases ?res) auto
  then obtain e where e: "e \<in> set edits" "ch_to e = Some (str ''c, d.'')"
    by (cases edits) auto
  from no_space_before_comma_or_period [OF r e(1), of "str ''c, d.''"] e(2)
  have "\<not> contains (str '' ,'') (str ''c, d.'') \<and> \<not> contains (str '' .'') (str ''c, d.'')"
    by simp
  with r e show ?thesis by blast
qed

subsection \<open>Training examples\<close>

text \<open>
  Claim C9. \<^verbatim>\<open>build_error_type_examples\<close> with its default bounds returns, in order, one
  example for each triple it keeps. The category of each example is a value of
  \<^verbatim>\<open>FCE_TO_FRIENDLY\<close> or \<open>other\<close>, and is one of the labels of the taxonomy (the keys of
  \<^verbatim>\<open>MICRO_FEEDBACK\<close>); its text is \<open>INC: <incorrect> || COR: <correct>\<close> with both
  sides trimmed; the two sides of a kept triple are not both empty after trimming, and
  neither tokenizes to more than 40 tokens.
\<close>

theorem training_examples_well_formed:
  "build_error_type_examples U data 1 40 =
     (map (example_text U) (filter (kept U 1 40) (all_corrections data)),
      map (example_label U) (filter (kept U 1 40) (all_corrections data)))
   \<and> (\<forall>corr \<in> set (filter (kept U 1 40) (all_corrections data)).
        example_label U corr \<in> snd ` set FCE_TO_FRIENDLY \<union> {str ''other''}
        \<and> example_label U corr \<in> fst ` set MICRO_FEEDBACK
        \<and> example_text U corr
            = str ''INC: '' @ strip U (py_or (incorrect corr) [])
              @ str '' || COR: '' @ strip U (py_or (correct corr) [])
        \<and> \<not> (strip U (py_or (incorrect corr) []) = [] \<and> strip U (py_or (correct corr) []) = [])
        \<and> length (wp_tokenize_tagger U (strip U (py_or (incorrect corr) []))) \<le> 40
        \<and> length (wp_tokenize_tagger U (strip U (py_or (correct corr) []))) \<le> 40)"
proof -
  have "example_label U corr \<in> snd ` set FCE_TO_FRIENDLY \<union> {str ''other''}" for corr
    unfolding example_label_def by (rule friendly_of_range)
  moreover have "example_label U corr \<in> fst ` set MICRO_FEEDBACK" for corr
    using friendly_of_range friendly_labels_known unfolding example_label_def by blast
  ultimately show ?thesis
    by (simp add: build_error_type_examples_def item_loop_eq kept_def example_text_def
        corr_inc_def corr_cor_def)
qed

theorem training_examples_well_formed_witness:
  "build_error_type_examples ascii_db
     [\<lparr>corrections = Some
         [\<lparr>corr_error_type = Some (str ''RT''), incorrect = Some (str '' on ''),
           correct = Some (str ''in'')\<rparr>,
          \<lparr>corr_error_type = Some (str ''S''), incorrect = Some (str ''  ''), correct = None\<rparr>]\<rparr>]
     1 40
   = ([str ''INC: on || COR: in''], [str ''prepositions''])"
proof -
  let ?c1 = "\<lparr>corr_error_type = Some (str ''RT''), incorrect = Some (str '' on ''),
           correct = Some (str ''in'')\<rparr>"
  let ?c2 = "\<lparr>corr_error_type = Some (str ''S''), incorrect = Some (str ''  ''), correct = None\<rparr>"
  let ?data = "[\<lparr>corrections = Some [?c1, ?c2]\<rparr>]"
  have k: "filter (kept ascii_db 1 40) (all_corrections ?data) = [?c1]"
    by code_simp
  have t: "example_text ascii_db ?c1 = str ''INC: on || COR: in''"
    by code_simp
  have l: "example_label ascii_db ?c1 = str ''prepositions''"
    by code_simp
  from training_examples_well_formed [of ascii_db ?data] show ?thesis
    by (simp only: k t l list.map)
qed

end
